theory Spec2Isabelle
  imports Complex_Main "HOL-Library.AList"
begin

section \<open>Data model (src/src/models.py)\<close>

text \<open>
  Python exceptions that the modelled code can raise.  Every list subscript of the
  source is a branch that yields \<open>IndexError\<close> when the index is out of range, every
  dictionary subscript yields \<open>KeyError\<close> on a missing key, and \<open>max\<close> of an empty
  sequence and \<open>list.remove\<close> of an absent element yield \<open>ValueError\<close>.
  \<open>TypeError\<close> stands for the failure of an operation on an object of the wrong kind;
  it only occurs in the reference-level model of the store.
\<close>

datatype error = IndexError | KeyError | ValueError | TypeError

text \<open>
  Identifiers are natural numbers: the constructor of \<open>ProblemInstance\<close> numbers tasks
  and robots with \<open>range(len(...))\<close>.  Times are Python floats in the source; they are
  modelled by real numbers, so every statement about \<open>+\<close>, \<open>max\<close> and \<open><\<close> below is a
  statement about exact arithmetic.  Requirement and skill vectors are lists of Python
  integers, compared with \<open>== 1\<close> and \<open>== 0\<close> exactly as the source does.
\<close>

record Task =
  tid :: nat
  execution_time :: real
  location :: "int \<times> int"
  requirements :: "int list"
  is_dummy :: bool

record Robot =
  rid :: nat
  skills :: "int list"

record ProblemInstance =
  tasks :: "Task list"
  robots :: "Robot list"
  travel_times :: "real list list"
  precedence_constraints :: "nat \<rightharpoonup> nat list"

text \<open>\<open>dict.get(key, default)\<close>.\<close>

definition dict_get :: "('k \<rightharpoonup> 'v) \<Rightarrow> 'k \<Rightarrow> 'v \<Rightarrow> 'v" where
  "dict_get m k d = (case m k of None \<Rightarrow> d | Some v \<Rightarrow> v)"

text \<open>
  The raw dictionary read from the instance file, with the keys the constructor reads
  (\<open>T_t\<close>, \<open>precedence_constraints\<close>, \<open>T_e\<close>, \<open>task_locations\<close>, \<open>R\<close>, \<open>Q\<close>); a
  missing key is the empty list, as \<open>data.get(key, [])\<close> makes it.
\<close>

record RawData =
  raw_T_t :: "real list list"
  raw_precedence_constraints :: "(nat \<times> nat) list"
  raw_T_e :: "real list"
  raw_task_locations :: "(int \<times> int) list"
  raw_R :: "int list list"
  raw_Q :: "int list list"

text \<open>
  \<open>ProblemInstance.__init__\<close>.  The pairs \<open>[pre, suc]\<close> are inverted into the map from a
  task to the list of its predecessors; task \<open>i\<close> is a dummy when it is the first or,
  among several, the last; \<open>task_locations[i]\<close> and \<open>R[i]\<close> raise out of range.
\<close>

fun invert_precedence ::
  "(nat \<times> nat) list \<Rightarrow> (nat \<rightharpoonup> nat list) \<Rightarrow> (nat \<rightharpoonup> nat list)" where
  "invert_precedence [] m = m"
| "invert_precedence ((pre, suc) # rest) m =
     invert_precedence rest (m(suc \<mapsto> dict_get m suc [] @ [pre]))"

fun make_tasks :: "RawData \<Rightarrow> nat list \<Rightarrow> error + Task list" where
  "make_tasks d [] = Inr []"
| "make_tasks d (i # is) =
     (if i < length (raw_task_locations d) \<and> i < length (raw_R d) then
        (case make_tasks d is of
           Inl e \<Rightarrow> Inl e
         | Inr ts \<Rightarrow>
             Inr (\<lparr> tid = i, execution_time = raw_T_e d ! i,
                     location = raw_task_locations d ! i, requirements = raw_R d ! i,
                     is_dummy = (i = 0 \<or> (i = length (raw_T_e d) - 1 \<and> length (raw_T_e d) > 1)) \<rparr>
                  # ts))
      else Inl IndexError)"

definition ProblemInstance_init :: "RawData \<Rightarrow> error + ProblemInstance" where
  "ProblemInstance_init d =
     (case make_tasks d [0..<length (raw_T_e d)] of
        Inl e \<Rightarrow> Inl e
      | Inr ts \<Rightarrow>
          Inr \<lparr> tasks = ts,
                robots = map (\<lambda>i. \<lparr> rid = i, skills = raw_Q d ! i \<rparr>) [0..<length (raw_Q d)],
                travel_times = raw_T_t d,
                precedence_constraints =
                  invert_precedence (raw_precedence_constraints d) Map.empty \<rparr>)"

definition num_robots :: "ProblemInstance \<Rightarrow> nat" where
  "num_robots p = length (robots p)"

definition get_real_tasks :: "ProblemInstance \<Rightarrow> Task list" where
  "get_real_tasks p = filter (\<lambda>t. \<not> is_dummy t) (tasks p)"

text \<open>
  \<open>Robot.has_skills\<close>: the loop over \<open>range(len(required_skills))\<close>.  The subscript
  \<open>self.skills[i]\<close> is only evaluated when \<open>required_skills[i] == 1\<close> (short-circuit
  \<open>and\<close>), and raises when the skill vector is too short.
\<close>

fun has_skills_loop :: "int list \<Rightarrow> int list \<Rightarrow> nat list \<Rightarrow> error + bool" where
  "has_skills_loop sk required_skills [] = Inr True"
| "has_skills_loop sk required_skills (i # is) =
     (if required_skills ! i = 1 then
        (if i < length sk then
           (if sk ! i = 0 then Inr False else has_skills_loop sk required_skills is)
         else Inl IndexError)
      else has_skills_loop sk required_skills is)"

definition has_skills :: "Robot \<Rightarrow> int list \<Rightarrow> error + bool" where
  "has_skills robot required_skills =
     has_skills_loop (skills robot) required_skills [0..<length required_skills]"

section \<open>Coalition finder (src/src/heuristics.py, find_minimal_coalition)\<close>

text \<open>The first loop: the first robot whose \<open>has_skills\<close> holds is returned.\<close>

fun first_capable :: "Robot list \<Rightarrow> int list \<Rightarrow> error + Robot option" where
  "first_capable [] required_skills = Inr None"
| "first_capable (robot # rest) required_skills =
     (case has_skills robot required_skills of
        Inl e \<Rightarrow> Inl e
      | Inr True \<Rightarrow> Inr (Some robot)
      | Inr False \<Rightarrow> first_capable rest required_skills)"

text \<open>The index sets \<open>{i | vector[i] == 1}\<close> built with \<open>enumerate\<close>.\<close>

definition ones :: "int list \<Rightarrow> nat set" where
  "ones v = set (filter (\<lambda>i. v ! i = 1) [0..<length v])"

text \<open>
  The inner \<open>for robot in available_robots\<close> loop of the set cover, with its two
  accumulators \<open>best_robot\<close> and \<open>skills_covered_by_best\<close>; the comparison is strict,
  so the first robot with the largest count wins.
\<close>

fun best_robot_loop ::
  "nat set \<Rightarrow> Robot list \<Rightarrow> Robot option \<times> nat set \<Rightarrow> Robot option \<times> nat set" where
  "best_robot_loop uncovered_skills [] acc = acc"
| "best_robot_loop uncovered_skills (robot # rest) (best_robot, skills_covered_by_best) =
     (let covered_by_this_robot = uncovered_skills \<inter> ones (skills robot) in
      if card covered_by_this_robot > card skills_covered_by_best
      then best_robot_loop uncovered_skills rest (Some robot, covered_by_this_robot)
      else best_robot_loop uncovered_skills rest (best_robot, skills_covered_by_best))"

lemma best_robot_loop_mem:
  "best_robot_loop u rs (b0, c0) = (Some b, c) \<Longrightarrow> b \<in> set rs \<or> b0 = Some b"
  by (induction rs arbitrary: b0 c0) (auto simp: Let_def split: if_splits)

lemma best_robot_loop_shrinks:
  assumes "(Some b, c) = best_robot_loop u rs (None, {})"
  shows "length (remove1 b rs) < length rs"
proof -
  have "b \<in> set rs"
    using assms best_robot_loop_mem [of u rs None "{}" b c] by simp
  then show ?thesis
    using length_pos_if_in_set [of b rs] by (simp add: length_remove1)
qed

text \<open>
  The \<open>while uncovered_skills\<close> loop.  \<open>None\<close> is the source's \<open>return None\<close>;
  \<open>list.remove\<close> deletes the first element equal to the chosen robot.  (Python compares
  the objects by identity; the chosen robot is the first one with the largest count, so
  it is also the first element with its value.)
\<close>

function cover_loop :: "nat set \<Rightarrow> Robot list \<Rightarrow> Robot list \<Rightarrow> Robot list option" where
  "cover_loop uncovered_skills coalition available_robots =
     (if uncovered_skills \<noteq> {} then
        (case best_robot_loop uncovered_skills available_robots (None, {}) of
           (Some best_robot, skills_covered_by_best) \<Rightarrow>
             cover_loop (uncovered_skills - skills_covered_by_best)
               (coalition @ [best_robot]) (remove1 best_robot available_robots)
         | (None, skills_covered_by_best) \<Rightarrow> None)
      else Some coalition)"
  by pat_completeness auto
termination
  by (relation "measure (\<lambda>(u, c, a). length a)")
     (simp_all add: best_robot_loop_shrinks)

declare cover_loop.simps [simp del]

text \<open>
  \<open>find_minimal_coalition\<close>.  \<open>Inr (Some [])\<close> is the empty coalition of line 27,
  \<open>Inr None\<close> the \<open>None\<close> of line 58.
\<close>

definition find_minimal_coalition :: "Task \<Rightarrow> Robot list \<Rightarrow> error + Robot list option" where
  "find_minimal_coalition task robots_list =
     (let required_skills = requirements task in
      if \<not> list_ex (\<lambda>req. req = 1) required_skills then Inr (Some [])
      else
        (case first_capable robots_list required_skills of
           Inl e \<Rightarrow> Inl e
         | Inr (Some robot) \<Rightarrow> Inr (Some [robot])
         | Inr None \<Rightarrow> Inr (cover_loop (ones required_skills) [] robots_list)))"

section \<open>List scheduler (src/src/heuristics.py, greedy_heuristic)\<close>

text \<open>
  One entry of a robot's schedule (the dictionary appended at lines 135-139) and the
  \<open>best_assignment\<close> dictionary of lines 118-123.
\<close>

record entry =
  entry_task :: nat
  entry_start_time :: real
  entry_end_time :: real

record assignment =
  a_task :: Task
  a_coalition :: "Robot list"
  a_start_time :: real
  a_finish_time :: real

text \<open>
  The local variables of \<open>greedy_heuristic\<close> that the loop mutates.  The dictionary
  \<open>robot_schedules\<close> is an association list in insertion order, as a Python dictionary
  is; it is keyed by \<open>str(i)\<close> in the source, and the model keys it by \<open>i\<close> itself (the
  decimal rendering of a natural number is injective).  \<open>printed\<close> collects the lines
  written by \<open>print\<close>.
\<close>

record sched_state =
  robot_available_time :: "real list"
  robot_current_location :: "nat list"
  tasks_to_schedule :: "Task list"
  scheduled_task_ids :: "nat set"
  task_finish_times :: "nat \<rightharpoonup> real"
  robot_schedules :: "(nat \<times> entry list) list"
  printed :: "string list"

record result =
  makespan :: real
  n_tasks :: nat
  n_robots :: nat
  res_robot_schedules :: "(nat \<times> entry list) list"

text \<open>Lines 81-89: the state before the first round.\<close>

definition init_state :: "ProblemInstance \<Rightarrow> sched_state" where
  "init_state p =
     \<lparr> robot_available_time = replicate (num_robots p) 0,
       robot_current_location = replicate (num_robots p) 0,
       tasks_to_schedule = get_real_tasks p,
       scheduled_task_ids = {0},
       task_finish_times = [0 \<mapsto> 0],
       robot_schedules = map (\<lambda>i. (i, [])) [0..<num_robots p],
       printed = [] \<rparr>"

text \<open>
  Python's \<open>max\<close> over a sequence: \<open>ValueError\<close> on the empty sequence unless a
  default is given.
\<close>

fun py_max :: "real list \<Rightarrow> error + real" where
  "py_max [] = Inl ValueError"
| "py_max (x # xs) = Inr (fold max xs x)"

fun py_max_default :: "real list \<Rightarrow> real \<Rightarrow> real" where
  "py_max_default [] d = d"
| "py_max_default (x # xs) d = fold max xs x"

text \<open>
  Line 108: \<open>robot_available_time[r.id] + travel_times[robot_current_location[r.id]][task.id]\<close>;
  each of the four subscripts raises \<open>IndexError\<close> out of range.
\<close>

definition arrival_time :: "ProblemInstance \<Rightarrow> sched_state \<Rightarrow> Task \<Rightarrow> Robot \<Rightarrow> error + real" where
  "arrival_time p st task r =
     (if rid r < length (robot_available_time st) \<and> rid r < length (robot_current_location st)
      then
        (let l = robot_current_location st ! rid r in
         if l < length (travel_times p) \<and> tid task < length (travel_times p ! l)
         then Inr (robot_available_time st ! rid r + travel_times p ! l ! tid task)
         else Inl IndexError)
      else Inl IndexError)"

text \<open>The list comprehension of lines 107-110; the first failing element raises.\<close>

fun arrival_times ::
  "ProblemInstance \<Rightarrow> sched_state \<Rightarrow> Task \<Rightarrow> Robot list \<Rightarrow> error + real list" where
  "arrival_times p st task [] = Inr []"
| "arrival_times p st task (r # rs) =
     (case arrival_time p st task r of
        Inl e \<Rightarrow> Inl e
      | Inr a \<Rightarrow>
          (case arrival_times p st task rs of
             Inl e \<Rightarrow> Inl e
           | Inr as \<Rightarrow> Inr (a # as)))"

text \<open>
  Lines 96-114, the body of the \<open>for task in tasks_to_schedule\<close> loop up to the
  comparison: \<open>Inr None\<close> when the task is skipped by \<open>continue\<close> or when
  \<open>if coalition:\<close> fails.  In Python both \<open>None\<close> and the empty list are false.
\<close>

definition candidate :: "ProblemInstance \<Rightarrow> sched_state \<Rightarrow> Task \<Rightarrow> error + assignment option" where
  "candidate p st task =
     (let predecessors = dict_get (precedence_constraints p) (tid task) [] in
      if \<not> list_all (\<lambda>q. q \<in> scheduled_task_ids st) predecessors then Inr None
      else
        (let max_pred_finish_time =
               py_max_default (map (\<lambda>q. dict_get (task_finish_times st) q 0) predecessors) 0
         in
         case find_minimal_coalition task (robots p) of
           Inl e \<Rightarrow> Inl e
         | Inr None \<Rightarrow> Inr None
         | Inr (Some []) \<Rightarrow> Inr None
         | Inr (Some (r # rs)) \<Rightarrow>
             (case arrival_times p st task (r # rs) of
                Inl e \<Rightarrow> Inl e
              | Inr coalition_arrival_times \<Rightarrow>
                  (case py_max coalition_arrival_times of
                     Inl e \<Rightarrow> Inl e
                   | Inr coalition_ready_time \<Rightarrow>
                       (let start_time = max coalition_ready_time max_pred_finish_time;
                            finish_time = start_time + execution_time task
                        in Inr (Some \<lparr> a_task = task, a_coalition = r # rs,
                                       a_start_time = start_time,
                                       a_finish_time = finish_time \<rparr>))))))"

text \<open>
  \<open>earliest_finish_time\<close> starts at \<open>float('inf')\<close>, modelled by \<open>None\<close>: every
  finish time is below it.
\<close>

fun below :: "real \<Rightarrow> real option \<Rightarrow> bool" where
  "below x None = True"
| "below x (Some e) = (x < e)"

text \<open>Lines 95-123: the loop over the pending tasks with its two accumulators.\<close>

fun round_loop ::
  "ProblemInstance \<Rightarrow> sched_state \<Rightarrow> Task list \<Rightarrow> assignment option \<times> real option \<Rightarrow>
   error + (assignment option \<times> real option)" where
  "round_loop p st [] acc = Inr acc"
| "round_loop p st (task # rest) (best_assignment, earliest_finish_time) =
     (case candidate p st task of
        Inl e \<Rightarrow> Inl e
      | Inr None \<Rightarrow> round_loop p st rest (best_assignment, earliest_finish_time)
      | Inr (Some c) \<Rightarrow>
          (if below (a_finish_time c) earliest_finish_time
           then round_loop p st rest (Some c, Some (a_finish_time c))
           else round_loop p st rest (best_assignment, earliest_finish_time)))"

definition select_round :: "ProblemInstance \<Rightarrow> sched_state \<Rightarrow> error + assignment option" where
  "select_round p st =
     (case round_loop p st (tasks_to_schedule st) (None, None) of
        Inl e \<Rightarrow> Inl e
      | Inr (best_assignment, earliest_finish_time) \<Rightarrow> Inr best_assignment)"

text \<open>Lines 132-139: the per-robot updates of a commit.\<close>

fun commit_robots :: "sched_state \<Rightarrow> assignment \<Rightarrow> Robot list \<Rightarrow> error + sched_state" where
  "commit_robots st a [] = Inr st"
| "commit_robots st a (robot # rest) =
     (if rid robot < length (robot_available_time st)
         \<and> rid robot < length (robot_current_location st)
      then
        (case map_of (robot_schedules st) (rid robot) of
           None \<Rightarrow> Inl KeyError
         | Some es \<Rightarrow>
             commit_robots
               (st\<lparr> robot_available_time :=
                       (robot_available_time st)[rid robot := a_finish_time a],
                     robot_current_location :=
                       (robot_current_location st)[rid robot := tid (a_task a)],
                     robot_schedules :=
                       AList.update (rid robot)
                         (es @ [\<lparr> entry_task = tid (a_task a),
                                  entry_start_time = a_start_time a,
                                  entry_end_time = a_finish_time a \<rparr>])
                         (robot_schedules st) \<rparr>)
               a rest)
      else Inl IndexError)"

text \<open>
  Lines 126-143.  \<open>list.remove\<close> raises \<open>ValueError\<close> when the element is absent.
\<close>

definition commit :: "sched_state \<Rightarrow> assignment \<Rightarrow> error + sched_state" where
  "commit st a =
     (case commit_robots st a (a_coalition a) of
        Inl e \<Rightarrow> Inl e
      | Inr st' \<Rightarrow>
          (if a_task a \<in> set (tasks_to_schedule st') then
             Inr (st'\<lparr> scheduled_task_ids := insert (tid (a_task a)) (scheduled_task_ids st'),
                        task_finish_times := (task_finish_times st')(tid (a_task a) \<mapsto> a_finish_time a),
                        tasks_to_schedule := remove1 (a_task a) (tasks_to_schedule st') \<rparr>)
           else Inl ValueError))"

lemma commit_robots_tasks:
  "commit_robots st a rs = Inr st' \<Longrightarrow> tasks_to_schedule st' = tasks_to_schedule st"
  by (induction rs arbitrary: st) (auto split: if_splits option.splits)

lemma commit_shrinks:
  assumes "commit st a = Inr st'"
  shows "length (tasks_to_schedule st') < length (tasks_to_schedule st)"
proof -
  from assms obtain st1 where
    r: "commit_robots st a (a_coalition a) = Inr st1" and
    m: "a_task a \<in> set (tasks_to_schedule st1)" and
    e: "tasks_to_schedule st' = remove1 (a_task a) (tasks_to_schedule st1)"
    by (auto simp: commit_def split: sum.splits if_splits)
  from r have "tasks_to_schedule st1 = tasks_to_schedule st"
    by (rule commit_robots_tasks)
  with m e show ?thesis
    using length_pos_if_in_set [of "a_task a" "tasks_to_schedule st"]
    by (simp add: length_remove1)
qed

definition warning :: string where
  "warning = ''Warning: Heuristic failed. Could not find a valid assignment for remaining tasks.''"

text \<open>Lines 91-147: the \<open>while len(tasks_to_schedule) > 0\<close> loop.\<close>

function main_loop :: "ProblemInstance \<Rightarrow> sched_state \<Rightarrow> error + sched_state" where
  "main_loop p st =
     (if length (tasks_to_schedule st) > 0 then
        (case select_round p st of
           Inl e \<Rightarrow> Inl e
         | Inr (Some best_assignment) \<Rightarrow>
             (case commit st best_assignment of
                Inl e \<Rightarrow> Inl e
              | Inr st' \<Rightarrow> main_loop p st')
         | Inr None \<Rightarrow>
             Inr (if tasks_to_schedule st \<noteq> [] then st\<lparr> printed := printed st @ [warning] \<rparr>
                  else st))
      else Inr st)"
  by pat_completeness auto
termination
  by (relation "measure (\<lambda>(p, st). length (tasks_to_schedule st))")
     (simp_all add: commit_shrinks)

declare main_loop.simps [simp del]

text \<open>
  Lines 149-156.  The function returns the result record; the printed lines are
  returned beside it.
\<close>

definition greedy_heuristic :: "ProblemInstance \<Rightarrow> error + (result \<times> string list)" where
  "greedy_heuristic p =
     (case main_loop p (init_state p) of
        Inl e \<Rightarrow> Inl e
      | Inr st \<Rightarrow>
          Inr (\<lparr> makespan = py_max_default (robot_available_time st) 0,
                  n_tasks = length (get_real_tasks p),
                  n_robots = num_robots p,
                  res_robot_schedules = robot_schedules st \<rparr>,
               printed st))"

section \<open>Specification vocabulary\<close>

text \<open>
  A skill vector dominates a requirement vector when it has a 1 at every index where
  the requirement vector has a 1.
\<close>

definition dominates :: "int list \<Rightarrow> int list \<Rightarrow> bool" where
  "dominates sk required_skills =
     list_all (\<lambda>i. required_skills ! i = 1 \<longrightarrow> i < length sk \<and> sk ! i = 1) [0..<length required_skills]"

text \<open>
  The data model's invariants on a roster: every skill vector is binary and at least
  as long as the requirement vector it is compared with.
\<close>

definition binary_vector :: "int list \<Rightarrow> bool" where
  "binary_vector v = list_all (\<lambda>x. x = 0 \<or> x = 1) v"

definition wf_roster :: "Robot list \<Rightarrow> int list \<Rightarrow> bool" where
  "wf_roster rs required_skills =
     list_all (\<lambda>r. length required_skills \<le> length (skills r) \<and> binary_vector (skills r)) rs"

text \<open>
  The skill vectors of \<open>rs\<close> jointly cover the index set \<open>u\<close>: every index of \<open>u\<close> is
  a 1 of some member's skill vector.
\<close>

definition covered_by :: "nat set \<Rightarrow> Robot list \<Rightarrow> bool" where
  "covered_by u rs = (\<forall>i\<in>u. \<exists>r\<in>set rs. i \<in> ones (skills r))"

section \<open>The scheduler: specification vocabulary\<close>

text \<open>
  The predecessors of a task, whether all of them are scheduled, the largest finish
  time recorded for them (0 without predecessors), and the time at which the last member
  of a coalition arrives at the task.
\<close>

definition predecessors_of :: "ProblemInstance \<Rightarrow> Task \<Rightarrow> nat list" where
  "predecessors_of p t = dict_get (precedence_constraints p) (tid t) []"

definition ready :: "ProblemInstance \<Rightarrow> sched_state \<Rightarrow> Task \<Rightarrow> bool" where
  "ready p st t = list_all (\<lambda>q. q \<in> scheduled_task_ids st) (predecessors_of p t)"

definition max_pred_finish :: "ProblemInstance \<Rightarrow> sched_state \<Rightarrow> Task \<Rightarrow> real" where
  "max_pred_finish p st t =
     (if predecessors_of p t = [] then 0
      else Max ((\<lambda>q. dict_get (task_finish_times st) q 0) ` set (predecessors_of p t)))"

definition coalition_ready_time ::
  "ProblemInstance \<Rightarrow> sched_state \<Rightarrow> Task \<Rightarrow> Robot list \<Rightarrow> real" where
  "coalition_ready_time p st t c =
     Max ((\<lambda>r. robot_available_time st ! rid r
                + travel_times p ! (robot_current_location st ! rid r) ! tid t) ` set c)"

text \<open>
  \<open>a\<close> is the candidate of a task of the list \<open>ts\<close> whose finish time is strictly below
  that of every candidate evaluated before it and at most that of every candidate
  evaluated after it: the earliest finish, the first one among equals.
\<close>

definition earliest_first :: "ProblemInstance \<Rightarrow> sched_state \<Rightarrow> Task list \<Rightarrow> assignment \<Rightarrow> bool" where
  "earliest_first p st ts a =
     (\<exists>pre post. ts = pre @ a_task a # post \<and>
        candidate p st (a_task a) = Inr (Some a) \<and>
        (\<forall>t\<in>set pre. \<forall>c. candidate p st t = Inr (Some c) \<longrightarrow> a_finish_time a < a_finish_time c) \<and>
        (\<forall>t\<in>set post. \<forall>c. candidate p st t = Inr (Some c) \<longrightarrow> a_finish_time a \<le> a_finish_time c))"

text \<open>
  The schedule entry a commit appends for each member of the coalition, and the entries
  that a history of commits leaves in the schedule of robot \<open>i\<close>.
\<close>

definition entry_of :: "assignment \<Rightarrow> entry" where
  "entry_of a = \<lparr> entry_task = tid (a_task a), entry_start_time = a_start_time a,
                  entry_end_time = a_finish_time a \<rparr>"

definition entries_for :: "nat \<Rightarrow> assignment list \<Rightarrow> entry list" where
  "entries_for i hist =
     concat (map (\<lambda>a. map (\<lambda>r. entry_of a) (filter (\<lambda>r. rid r = i) (a_coalition a))) hist)"

text \<open>
  The states the main loop passes through, with the assignments committed so far:
  the loop starts in \<open>init_state\<close>, and one iteration that commits the selected
  assignment leads from one state to the next.
\<close>

inductive run :: "ProblemInstance \<Rightarrow> assignment list \<Rightarrow> sched_state \<Rightarrow> bool" for p where
  run_init: "run p [] (init_state p)"
| run_step: "run p hist st \<Longrightarrow> tasks_to_schedule st \<noteq> [] \<Longrightarrow>
             select_round p st = Inr (Some a) \<Longrightarrow> commit st a = Inr st' \<Longrightarrow>
             run p (hist @ [a]) st'"

text \<open>
  The main loop with a bound on the number of times its condition is evaluated;
  \<open>None\<close> when the bound is reached before the loop has exited.
\<close>

fun main_loop_fuel :: "nat \<Rightarrow> ProblemInstance \<Rightarrow> sched_state \<Rightarrow> (error + sched_state) option" where
  "main_loop_fuel 0 p st = None"
| "main_loop_fuel (Suc n) p st =
     (if length (tasks_to_schedule st) > 0 then
        (case select_round p st of
           Inl e \<Rightarrow> Some (Inl e)
         | Inr (Some best_assignment) \<Rightarrow>
             (case commit st best_assignment of
                Inl e \<Rightarrow> Some (Inl e)
              | Inr st' \<Rightarrow> main_loop_fuel n p st')
         | Inr None \<Rightarrow>
             Some (Inr (if tasks_to_schedule st \<noteq> [] then st\<lparr> printed := printed st @ [warning] \<rparr>
                        else st)))
      else Some (Inr st))"

text \<open>
  Execution times and travel times are non-negative.
\<close>

definition nonneg_times :: "ProblemInstance \<Rightarrow> bool" where
  "nonneg_times p =
     ((\<forall>t\<in>set (tasks p). 0 \<le> execution_time t) \<and>
      (\<forall>row\<in>set (travel_times p). \<forall>x\<in>set row. 0 \<le> x))"

definition finishes :: "assignment list \<Rightarrow> real set" where
  "finishes hist = a_finish_time ` set hist"

text \<open>
  A robot's schedule is chronological: every entry ends no earlier than it starts and
  starts no earlier than the previous entry ends.  An entry matches the instance when
  it belongs to a real task and lasts for that task's execution time.
\<close>

fun chronological :: "entry list \<Rightarrow> bool" where
  "chronological [] = True"
| "chronological [e] = (entry_start_time e \<le> entry_end_time e)"
| "chronological (e # e' # es) =
     (entry_start_time e \<le> entry_end_time e \<and> entry_end_time e \<le> entry_start_time e' \<and>
      chronological (e' # es))"

definition entry_matches :: "ProblemInstance \<Rightarrow> entry \<Rightarrow> bool" where
  "entry_matches p e =
     (\<exists>t\<in>set (get_real_tasks p). tid t = entry_task e \<and>
        entry_end_time e = entry_start_time e + execution_time t)"

section \<open>Concrete instances\<close>

text \<open>A task that needs two skills, and robots with each combination of them.\<close>

definition t_req11 :: Task where
  "t_req11 = \<lparr> tid = 1, execution_time = 5, location = (1, 0), requirements = [1, 1],
              is_dummy = False \<rparr>"

definition r10 :: Robot where "r10 = \<lparr> rid = 0, skills = [1, 0] \<rparr>"
definition r01 :: Robot where "r01 = \<lparr> rid = 1, skills = [0, 1] \<rparr>"
definition r11 :: Robot where "r11 = \<lparr> rid = 2, skills = [1, 1] \<rparr>"
definition r00 :: Robot where "r00 = \<lparr> rid = 3, skills = [0, 0] \<rparr>"

text \<open>
  An instance whose only real task has no requirement: a depot, the task, a final
  dummy task, and one robot.
\<close>

definition depot :: Task where
  "depot = \<lparr> tid = 0, execution_time = 0, location = (0, 0), requirements = [0], is_dummy = True \<rparr>"

definition sink :: Task where
  "sink = \<lparr> tid = 2, execution_time = 0, location = (0, 0), requirements = [0], is_dummy = True \<rparr>"

definition t_free :: Task where
  "t_free = \<lparr> tid = 1, execution_time = 5, location = (1, 0), requirements = [0], is_dummy = False \<rparr>"

definition r_one :: Robot where "r_one = \<lparr> rid = 0, skills = [1] \<rparr>"

definition pZ :: ProblemInstance where
  "pZ = \<lparr> tasks = [depot, t_free, sink], robots = [r_one],
           travel_times = [[0, 2, 0], [2, 0, 2], [0, 2, 0]],
           precedence_constraints = Map.empty \<rparr>"

text \<open>
  An instance with two robots and three real tasks; the third task has tasks 1 and 2 as
  predecessors and is a parameter: \<open>taskB3\<close> needs both robots, \<open>taskS3\<close> needs a skill
  that no robot has.  The assignments, schedule entries and states are those of the run
  on this instance.
\<close>

definition mk_task :: "nat \<Rightarrow> real \<Rightarrow> int list \<Rightarrow> bool \<Rightarrow> Task" where
  "mk_task i e rq d =
     \<lparr> tid = i, execution_time = e, location = (int i, 0), requirements = rq, is_dummy = d \<rparr>"

definition robotA :: Robot where "robotA = \<lparr> rid = 0, skills = [1, 0, 0] \<rparr>"

definition robotB :: Robot where "robotB = \<lparr> rid = 1, skills = [0, 1, 0] \<rparr>"

definition taskB0 :: Task where "taskB0 = mk_task 0 0 [0, 0, 0] True"

definition taskB1 :: Task where "taskB1 = mk_task 1 5 [1, 0, 0] False"

definition taskB2 :: Task where "taskB2 = mk_task 2 3 [0, 1, 0] False"

definition taskB3 :: Task where "taskB3 = mk_task 3 2 [1, 1, 0] False"

definition taskS3 :: Task where "taskS3 = mk_task 3 2 [0, 0, 1] False"

definition taskB4 :: Task where "taskB4 = mk_task 4 0 [0, 0, 0] True"

definition instB :: "Task \<Rightarrow> ProblemInstance" where
  "instB t = \<lparr> tasks = [taskB0, taskB1, taskB2, t, taskB4], robots = [robotA, robotB],
       travel_times = [[0, 2, 1, 1, 0], [2, 0, 1, 1, 2], [1, 1, 0, 2, 1],
                       [1, 1, 2, 0, 1], [0, 2, 1, 1, 0]],
       precedence_constraints = [3 \<mapsto> [1, 2]] \<rparr>"

definition asgB2 :: assignment where
  "asgB2 = \<lparr> a_task = taskB2, a_coalition = [robotB], a_start_time = 1, a_finish_time = 4 \<rparr>"

definition asgB1 :: assignment where
  "asgB1 = \<lparr> a_task = taskB1, a_coalition = [robotA], a_start_time = 2, a_finish_time = 7 \<rparr>"

definition asgB3 :: assignment where
  "asgB3 = \<lparr> a_task = taskB3, a_coalition = [robotA, robotB], a_start_time = 8,
             a_finish_time = 10 \<rparr>"

definition entB1 :: entry where
  "entB1 = \<lparr> entry_task = 1, entry_start_time = 2, entry_end_time = 7 \<rparr>"

definition entB2 :: entry where
  "entB2 = \<lparr> entry_task = 2, entry_start_time = 1, entry_end_time = 4 \<rparr>"

definition entB3 :: entry where
  "entB3 = \<lparr> entry_task = 3, entry_start_time = 8, entry_end_time = 10 \<rparr>"

definition stB0 :: "Task \<Rightarrow> sched_state" where
  "stB0 t = \<lparr> robot_available_time = [0, 0], robot_current_location = [0, 0],
       tasks_to_schedule = [taskB1, taskB2, t], scheduled_task_ids = {0},
       task_finish_times = [0 \<mapsto> 0], robot_schedules = [(0, []), (1, [])], printed = [] \<rparr>"

definition stB1 :: "Task \<Rightarrow> sched_state" where
  "stB1 t = \<lparr> robot_available_time = [0, 4], robot_current_location = [0, 2],
       tasks_to_schedule = [taskB1, t], scheduled_task_ids = {2, 0},
       task_finish_times = [0 \<mapsto> 0, 2 \<mapsto> 4], robot_schedules = [(0, []), (1, [entB2])],
       printed = [] \<rparr>"

definition stB2 :: "Task \<Rightarrow> sched_state" where
  "stB2 t = \<lparr> robot_available_time = [7, 4], robot_current_location = [1, 2],
       tasks_to_schedule = [t], scheduled_task_ids = {1, 2, 0},
       task_finish_times = [0 \<mapsto> 0, 2 \<mapsto> 4, 1 \<mapsto> 7],
       robot_schedules = [(0, [entB1]), (1, [entB2])], printed = [] \<rparr>"

definition stB3 :: sched_state where
  "stB3 = \<lparr> robot_available_time = [10, 10], robot_current_location = [3, 3],
       tasks_to_schedule = [], scheduled_task_ids = {3, 1, 2, 0},
       task_finish_times = [0 \<mapsto> 0, 2 \<mapsto> 4, 1 \<mapsto> 7, 3 \<mapsto> 10],
       robot_schedules = [(0, [entB1, entB3]), (1, [entB2, entB3])], printed = [] \<rparr>"

definition resB :: result where
  "resB = \<lparr> makespan = 10, n_tasks = 3, n_robots = 2,
            res_robot_schedules = [(0, [entB1, entB3]), (1, [entB2, entB3])] \<rparr>"

definition resS :: result where
  "resS = \<lparr> makespan = 7, n_tasks = 3, n_robots = 2,
            res_robot_schedules = [(0, [entB1]), (1, [entB2])] \<rparr>"

section \<open>Reference-level model of the lists the heuristic mutates\<close>

text \<open>
  The model above passes values.  In Python the problem instance is an object whose
  attributes refer to mutable containers, and \<open>list.remove\<close> changes a list in place, so
  whether the caller's instance survives a call depends on which list objects the
  function mutates.  This section models those objects by reference.  The store is a
  list of cells and an address is an index into it; allocation appends a cell.  The
  cells are the containers a problem instance refers to and the lists built from them.
  Containers that \<open>greedy_heuristic\<close> creates from literals (\<open>[0.0] * n\<close>, \<open>{0}\<close>,
  \<open>{0: 0.0}\<close>, the schedule dictionary, the coalition under construction) stay in the
  local state and are passed by value as before.
\<close>

datatype cell =
    TaskList "Task list"
  | RobotList "Robot list"
  | Matrix "real list list"
  | PrecDict "nat \<rightharpoonup> nat list"

type_synonym store = "cell list"

text \<open>
  A \<open>ProblemInstance\<close> object: the addresses of its four containers.
\<close>

record ProblemRef =
  tasks_at :: nat
  robots_at :: nat
  travel_times_at :: nat
  precedence_at :: nat

text \<open>
  A new object is placed behind the cells that exist.
\<close>

definition alloc :: "store \<Rightarrow> cell \<Rightarrow> store \<times> nat" where
  "alloc h c = (h @ [c], length h)"

text \<open>
  Reading a cell as a container of the expected kind.
\<close>

definition get_tasks :: "store \<Rightarrow> nat \<Rightarrow> error + Task list" where
  "get_tasks h a =
     (if a < length h then (case h ! a of TaskList ts \<Rightarrow> Inr ts | _ \<Rightarrow> Inl TypeError)
      else Inl TypeError)"

definition get_robots :: "store \<Rightarrow> nat \<Rightarrow> error + Robot list" where
  "get_robots h a =
     (if a < length h then (case h ! a of RobotList rs \<Rightarrow> Inr rs | _ \<Rightarrow> Inl TypeError)
      else Inl TypeError)"

definition get_matrix :: "store \<Rightarrow> nat \<Rightarrow> error + real list list" where
  "get_matrix h a =
     (if a < length h then (case h ! a of Matrix m \<Rightarrow> Inr m | _ \<Rightarrow> Inl TypeError)
      else Inl TypeError)"

definition get_prec :: "store \<Rightarrow> nat \<Rightarrow> error + (nat \<rightharpoonup> nat list)" where
  "get_prec h a =
     (if a < length h then (case h ! a of PrecDict d \<Rightarrow> Inr d | _ \<Rightarrow> Inl TypeError)
      else Inl TypeError)"

text \<open>
  The instance that a problem object denotes in a store: all four attributes read.
\<close>

definition load :: "store \<Rightarrow> ProblemRef \<Rightarrow> error + ProblemInstance" where
  "load h pr =
     (case get_tasks h (tasks_at pr) of Inl e \<Rightarrow> Inl e | Inr ts \<Rightarrow>
      case get_robots h (robots_at pr) of Inl e \<Rightarrow> Inl e | Inr rs \<Rightarrow>
      case get_matrix h (travel_times_at pr) of Inl e \<Rightarrow> Inl e | Inr m \<Rightarrow>
      case get_prec h (precedence_at pr) of Inl e \<Rightarrow> Inl e | Inr d \<Rightarrow>
        Inr \<lparr> tasks = ts, robots = rs, travel_times = m, precedence_constraints = d \<rparr>)"

text \<open>
  \<open>get_real_tasks\<close> (models.py, lines 98-100) evaluates a list comprehension: the
  result is a new list object, not \<open>self.tasks\<close>.
\<close>

definition get_real_tasks_ref :: "store \<Rightarrow> ProblemRef \<Rightarrow> store \<times> (error + nat)" where
  "get_real_tasks_ref h pr =
     (case get_tasks h (tasks_at pr) of
        Inl e \<Rightarrow> (h, Inl e)
      | Inr ts \<Rightarrow> (let (h', a) = alloc h (TaskList (filter (\<lambda>t. \<not> is_dummy t) ts))
                  in (h', Inr a)))"

text \<open>
  The set-cover loop on the list object \<open>available_robots\<close>:
  \<open>available_robots.remove(best_robot)\<close> overwrites the cell.
\<close>

function cover_loop_ref ::
  "store \<Rightarrow> nat set \<Rightarrow> Robot list \<Rightarrow> nat \<Rightarrow> store \<times> (error + Robot list option)" where
  "cover_loop_ref h uncovered_skills coalition available_robots =
     (if uncovered_skills \<noteq> {} then
        (case get_robots h available_robots of
           Inl e \<Rightarrow> (h, Inl e)
         | Inr available \<Rightarrow>
             (case best_robot_loop uncovered_skills available (None, {}) of
                (Some best_robot, skills_covered_by_best) \<Rightarrow>
                  cover_loop_ref
                    (h[available_robots := RobotList (remove1 best_robot available)])
                    (uncovered_skills - skills_covered_by_best)
                    (coalition @ [best_robot]) available_robots
              | (None, skills_covered_by_best) \<Rightarrow> (h, Inr None)))
      else (h, Inr (Some coalition)))"
  by pat_completeness auto

termination
proof (relation "measure (\<lambda>(h, u, c, a). case get_robots h a of Inr rs \<Rightarrow> length rs | Inl e \<Rightarrow> 0)")
  show "wf (measure (\<lambda>(h, u, c, a). case get_robots h a of Inr rs \<Rightarrow> length rs | Inl e \<Rightarrow> 0))"
    by simp
next
  fix h :: store and uncovered_skills :: "nat set" and coalition :: "Robot list"
    and available_robots :: nat and available x y and best_robot :: Robot
  assume g: "get_robots h available_robots = Inr available"
    and b: "(x, y) = best_robot_loop uncovered_skills available (None, {})"
    and x: "x = Some best_robot"
  from g have l: "available_robots < length h"
    by (auto simp: get_robots_def split: if_splits)
  from b x have "length (remove1 best_robot available) < length available"
    by (intro best_robot_loop_shrinks [of _ y uncovered_skills]) simp
  with g l show "((h[available_robots := RobotList (remove1 best_robot available)],
                 uncovered_skills - y, coalition @ [best_robot], available_robots),
                h, uncovered_skills, coalition, available_robots)
          \<in> measure (\<lambda>(h, u, c, a). case get_robots h a of Inr rs \<Rightarrow> length rs | Inl e \<Rightarrow> 0)"
    by (simp add: get_robots_def)
qed

declare cover_loop_ref.simps [simp del]

text \<open>
  \<open>find_minimal_coalition\<close>: the first loop iterates over the caller's list;
  \<open>available_robots = list(robots)\<close> allocates a copy for the set-cover loop.
\<close>

definition find_minimal_coalition_ref ::
  "store \<Rightarrow> Task \<Rightarrow> nat \<Rightarrow> store \<times> (error + Robot list option)" where
  "find_minimal_coalition_ref h task robots_ref =
     (let required_skills = requirements task in
      if \<not> list_ex (\<lambda>req. req = 1) required_skills then (h, Inr (Some []))
      else
        (case get_robots h robots_ref of
           Inl e \<Rightarrow> (h, Inl e)
         | Inr robots_list \<Rightarrow>
             (case first_capable robots_list required_skills of
                Inl e \<Rightarrow> (h, Inl e)
              | Inr (Some robot) \<Rightarrow> (h, Inr (Some [robot]))
              | Inr None \<Rightarrow>
                  (let (h', available_robots) = alloc h (RobotList robots_list)
                   in cover_loop_ref h' (ones required_skills) [] available_robots))))"

text \<open>
  The body of the round's loop.  Every access to an attribute of the problem object
  reads the store as it is at that point.
\<close>

definition candidate_ref ::
  "store \<Rightarrow> ProblemRef \<Rightarrow> sched_state \<Rightarrow> Task \<Rightarrow> store \<times> (error + assignment option)" where
  "candidate_ref h pr st task =
     (case load h pr of
        Inl e \<Rightarrow> (h, Inl e)
      | Inr p \<Rightarrow>
          (let predecessors = dict_get (precedence_constraints p) (tid task) [] in
           if \<not> list_all (\<lambda>q. q \<in> scheduled_task_ids st) predecessors then (h, Inr None)
           else
             (let max_pred_finish_time =
                    py_max_default (map (\<lambda>q. dict_get (task_finish_times st) q 0) predecessors) 0
              in
              case find_minimal_coalition_ref h task (robots_at pr) of
                (h', Inl e) \<Rightarrow> (h', Inl e)
              | (h', Inr None) \<Rightarrow> (h', Inr None)
              | (h', Inr (Some [])) \<Rightarrow> (h', Inr None)
              | (h', Inr (Some (r # rs))) \<Rightarrow>
                  (case load h' pr of
                     Inl e \<Rightarrow> (h', Inl e)
                   | Inr p' \<Rightarrow>
                       (case arrival_times p' st task (r # rs) of
                          Inl e \<Rightarrow> (h', Inl e)
                        | Inr coalition_arrival_times \<Rightarrow>
                            (case py_max coalition_arrival_times of
                               Inl e \<Rightarrow> (h', Inl e)
                             | Inr ready_time \<Rightarrow>
                                 (let start_time = max ready_time max_pred_finish_time;
                                      finish_time = start_time + execution_time task
                                  in (h', Inr (Some \<lparr> a_task = task, a_coalition = r # rs,
                                                       a_start_time = start_time,
                                                       a_finish_time = finish_time \<rparr>)))))))))"

fun round_loop_ref ::
  "store \<Rightarrow> ProblemRef \<Rightarrow> sched_state \<Rightarrow> Task list \<Rightarrow> assignment option \<times> real option \<Rightarrow>
   store \<times> (error + (assignment option \<times> real option))" where
  "round_loop_ref h pr st [] acc = (h, Inr acc)"
| "round_loop_ref h pr st (task # rest) (best_assignment, earliest_finish_time) =
     (case candidate_ref h pr st task of
        (h', Inl e) \<Rightarrow> (h', Inl e)
      | (h', Inr None) \<Rightarrow> round_loop_ref h' pr st rest (best_assignment, earliest_finish_time)
      | (h', Inr (Some c)) \<Rightarrow>
          (if below (a_finish_time c) earliest_finish_time
           then round_loop_ref h' pr st rest (Some c, Some (a_finish_time c))
           else round_loop_ref h' pr st rest (best_assignment, earliest_finish_time)))"

definition select_round_ref ::
  "store \<Rightarrow> ProblemRef \<Rightarrow> nat \<Rightarrow> sched_state \<Rightarrow> store \<times> (error + assignment option)" where
  "select_round_ref h pr tasks_ref st =
     (case get_tasks h tasks_ref of
        Inl e \<Rightarrow> (h, Inl e)
      | Inr pending \<Rightarrow>
          (case round_loop_ref h pr st pending (None, None) of
             (h', Inl e) \<Rightarrow> (h', Inl e)
           | (h', Inr (best_assignment, earliest_finish_time)) \<Rightarrow> (h', Inr best_assignment)))"

text \<open>
  The commit: \<open>tasks_to_schedule.remove(task)\<close> overwrites the cell of the pending
  list.  At this level the field \<open>tasks_to_schedule\<close> of the local state is not used;
  the pending tasks are the list in the store.
\<close>

definition commit_ref ::
  "store \<Rightarrow> nat \<Rightarrow> sched_state \<Rightarrow> assignment \<Rightarrow> store \<times> (error + sched_state)" where
  "commit_ref h tasks_ref st a =
     (case commit_robots st a (a_coalition a) of
        Inl e \<Rightarrow> (h, Inl e)
      | Inr st' \<Rightarrow>
          (case get_tasks h tasks_ref of
             Inl e \<Rightarrow> (h, Inl e)
           | Inr pending \<Rightarrow>
               (if a_task a \<in> set pending then
                  (h[tasks_ref := TaskList (remove1 (a_task a) pending)],
                   Inr (st'\<lparr> scheduled_task_ids := insert (tid (a_task a)) (scheduled_task_ids st'),
                              task_finish_times :=
                                (task_finish_times st')(tid (a_task a) \<mapsto> a_finish_time a) \<rparr>))
                else (h, Inl ValueError))))"

text \<open>
  A store extends another when it only has additional cells behind it: every cell of
  the old store is unchanged.
\<close>

definition extends :: "store \<Rightarrow> store \<Rightarrow> bool" where
  "extends h h' = (\<exists>ys. h' = h @ ys)"

lemma extends_refl: "extends h h"
  by (simp add: extends_def)

lemma extends_trans: "extends h h1 \<Longrightarrow> extends h1 h2 \<Longrightarrow> extends h h2"
  by (auto simp: extends_def)

lemma extends_get_tasks: "extends h h' \<Longrightarrow> a < length h \<Longrightarrow> get_tasks h' a = get_tasks h a"
  by (auto simp: extends_def get_tasks_def nth_append)

lemma extends_get_robots: "extends h h' \<Longrightarrow> a < length h \<Longrightarrow> get_robots h' a = get_robots h a"
  by (auto simp: extends_def get_robots_def nth_append)

lemma cover_loop_ref_frame:
  "cover_loop_ref h u c av = (h', r) \<Longrightarrow>
     length h' = length h \<and> (\<forall>a. a \<noteq> av \<longrightarrow> h' ! a = h ! a)"
proof (induction h u c av rule: cover_loop_ref.induct)
  case (1 h u c av)
  show ?case
  proof (cases "u = {}")
    case True
    with "1.prems" show ?thesis by (simp add: cover_loop_ref.simps)
  next
    case False
    show ?thesis
    proof (cases "get_robots h av")
      case (Inl e)
      with False "1.prems" show ?thesis by (simp add: cover_loop_ref.simps)
    next
      case (Inr available)
      obtain bo cov where br: "best_robot_loop u available (None, {}) = (bo, cov)"
        by (cases "best_robot_loop u available (None, {})")
      show ?thesis
      proof (cases bo)
        case None
        with False Inr br "1.prems" show ?thesis by (simp add: cover_loop_ref.simps)
      next
        case (Some b)
        with False Inr br "1.prems" have
          "cover_loop_ref (h[av := RobotList (remove1 b available)]) (u - cov) (c @ [b]) av = (h', r)"
          by (subst (asm) cover_loop_ref.simps) simp
        from "1.IH" [OF False Inr br [symmetric] Some this] show ?thesis by simp
      qed
    qed
  qed
qed

lemma find_minimal_coalition_ref_extends:
  assumes "find_minimal_coalition_ref h task ra = (h', r)"
  shows "extends h h'"
proof -
  have "extends h h'" if c: "cover_loop_ref (h @ [x]) u [] (length h) = (h', r)" for x u
  proof -
    from cover_loop_ref_frame [OF c] have l: "length h' = Suc (length h)"
      and f: "\<forall>a. a \<noteq> length h \<longrightarrow> h' ! a = (h @ [x]) ! a" by simp_all
    have "h' = h @ [h' ! length h]"
    proof (rule nth_equalityI)
      show "length h' = length (h @ [h' ! length h])" using l by simp
      fix i assume "i < length h'"
      with l f show "h' ! i = (h @ [h' ! length h]) ! i"
        by (cases "i = length h") (auto simp: nth_append)
    qed
    then show ?thesis unfolding extends_def by blast
  qed
  with assms show ?thesis
    by (auto simp: find_minimal_coalition_ref_def Let_def alloc_def extends_refl
             split: if_splits sum.splits option.splits)
qed

lemma candidate_ref_extends:
  assumes "candidate_ref h pr st task = (h', r)"
  shows "extends h h'"
proof -
  obtain h1 r1 where f: "find_minimal_coalition_ref h task (robots_at pr) = (h1, r1)"
    by (cases "find_minimal_coalition_ref h task (robots_at pr)")
  from find_minimal_coalition_ref_extends [OF f] have "extends h h1" .
  with assms f show ?thesis
    by (auto simp: candidate_ref_def Let_def extends_refl
             split: if_splits sum.splits option.splits list.splits)
qed

lemma round_loop_ref_extends:
  "round_loop_ref h pr st ts acc = (h', r) \<Longrightarrow> extends h h'"
proof (induction ts arbitrary: h acc)
  case Nil
  then show ?case by (simp add: extends_refl)
next
  case (Cons t ts)
  obtain b0 e0 where acc: "acc = (b0, e0)" by (cases acc)
  obtain h1 r1 where c: "candidate_ref h pr st t = (h1, r1)"
    by (cases "candidate_ref h pr st t")
  note e1 = candidate_ref_extends [OF c]
  show ?case
  proof (cases r1)
    case (Inl e)
    with Cons.prems acc c e1 show ?thesis by simp
  next
    case (Inr co)
    with Cons.prems acc c obtain acc' where "round_loop_ref h1 pr st ts acc' = (h', r)"
      by (auto split: option.splits if_splits)
    from Cons.IH [OF this] e1 show ?thesis by (rule extends_trans [rotated])
  qed
qed

lemma select_round_ref_extends:
  assumes "select_round_ref h pr tr st = (h', r)"
  shows "extends h h'"
proof (cases "get_tasks h tr")
  case (Inl e)
  with assms show ?thesis by (simp add: select_round_ref_def extends_refl)
next
  case (Inr pending)
  obtain h1 r1 where rl: "round_loop_ref h pr st pending (None, None) = (h1, r1)"
    by (cases "round_loop_ref h pr st pending (None, None)")
  from round_loop_ref_extends [OF rl] assms Inr rl show ?thesis
    by (auto simp: select_round_ref_def split: sum.splits)
qed

lemma commit_ref_shrinks:
  assumes "commit_ref h tr st a = (h', Inr st')" and "get_tasks h tr = Inr pending"
  shows "\<exists>pending'. get_tasks h' tr = Inr pending' \<and> length pending' < length pending"
proof -
  from assms(2) have l: "tr < length h" by (auto simp: get_tasks_def split: if_splits)
  from assms have m: "a_task a \<in> set pending"
    and h': "h' = h[tr := TaskList (remove1 (a_task a) pending)]"
    by (auto simp: commit_ref_def split: sum.splits if_splits)
  from h' l have "get_tasks h' tr = Inr (remove1 (a_task a) pending)"
    by (simp add: get_tasks_def)
  moreover from m have "length (remove1 (a_task a) pending) < length pending"
    using length_pos_if_in_set [of "a_task a" pending] by (simp add: length_remove1)
  ultimately show ?thesis by blast
qed

lemma main_loop_ref_decreases:
  assumes g: "get_tasks h tr = Inr pending"
    and s: "(h1, Inr (Some a)) = select_round_ref h pr tr st"
    and c: "(h2, Inr st') = commit_ref h1 tr st a"
  shows "(case get_tasks h2 tr of Inl e \<Rightarrow> 0 | Inr y \<Rightarrow> length y) < length pending"
proof -
  from g have l: "tr < length h" by (auto simp: get_tasks_def split: if_splits)
  from select_round_ref_extends [OF s [symmetric]] l g have g1: "get_tasks h1 tr = Inr pending"
    by (simp add: extends_get_tasks)
  from commit_ref_shrinks [OF c [symmetric] g1] show ?thesis by auto
qed

text \<open>
  The main loop on the list object behind \<open>tasks_ref\<close>.
\<close>

function main_loop_ref ::
  "store \<Rightarrow> ProblemRef \<Rightarrow> nat \<Rightarrow> sched_state \<Rightarrow> store \<times> (error + sched_state)" where
  "main_loop_ref h pr tasks_ref st =
     (case get_tasks h tasks_ref of
        Inl e \<Rightarrow> (h, Inl e)
      | Inr pending \<Rightarrow>
          (if length pending > 0 then
             (case select_round_ref h pr tasks_ref st of
                (h1, Inl e) \<Rightarrow> (h1, Inl e)
              | (h1, Inr (Some best_assignment)) \<Rightarrow>
                  (case commit_ref h1 tasks_ref st best_assignment of
                     (h2, Inl e) \<Rightarrow> (h2, Inl e)
                   | (h2, Inr st') \<Rightarrow> main_loop_ref h2 pr tasks_ref st')
              | (h1, Inr None) \<Rightarrow>
                  (h1, Inr (if pending \<noteq> [] then st\<lparr> printed := printed st @ [warning] \<rparr>
                            else st)))
           else (h, Inr st)))"
  by pat_completeness auto

termination
  by (relation "measure (\<lambda>(h, pr, tr, st).
                   case get_tasks h tr of Inr pending \<Rightarrow> length pending | Inl e \<Rightarrow> 0)")
     (simp, simp, rule main_loop_ref_decreases, assumption+)

declare main_loop_ref.simps [simp del]

text \<open>
  \<open>greedy_heuristic\<close> on a problem object: it returns the store after the call beside
  the result.  \<open>get_real_tasks\<close> is called twice (lines 85 and 153).
\<close>

definition greedy_heuristic_ref ::
  "store \<Rightarrow> ProblemRef \<Rightarrow> store \<times> (error + (result \<times> string list))" where
  "greedy_heuristic_ref h pr =
     (case load h pr of
        Inl e \<Rightarrow> (h, Inl e)
      | Inr p \<Rightarrow>
          (case get_real_tasks_ref h pr of
             (h1, Inl e) \<Rightarrow> (h1, Inl e)
           | (h1, Inr tasks_to_schedule_ref) \<Rightarrow>
               (case main_loop_ref h1 pr tasks_to_schedule_ref
                       ((init_state p)\<lparr> tasks_to_schedule := [] \<rparr>) of
                  (h2, Inl e) \<Rightarrow> (h2, Inl e)
                | (h2, Inr st) \<Rightarrow>
                    (case get_real_tasks_ref h2 pr of
                       (h3, Inl e) \<Rightarrow> (h3, Inl e)
                     | (h3, Inr real_ref) \<Rightarrow>
                         (case get_tasks h3 real_ref of
                            Inl e \<Rightarrow> (h3, Inl e)
                          | Inr real_tasks \<Rightarrow>
                              (case load h3 pr of
                                 Inl e \<Rightarrow> (h3, Inl e)
                               | Inr p' \<Rightarrow>
                                   (h3, Inr (\<lparr> makespan =
                                                  py_max_default (robot_available_time st) 0,
                                                n_tasks = length real_tasks,
                                                n_robots = num_robots p',
                                                res_robot_schedules = robot_schedules st \<rparr>,
                                             printed st))))))))"

text \<open>
  The cells a problem object refers to, and a concrete store holding the instance
  \<open>instB taskB3\<close>.
\<close>

definition problem_cells :: "ProblemRef \<Rightarrow> nat set" where
  "problem_cells pr = {tasks_at pr, robots_at pr, travel_times_at pr, precedence_at pr}"

definition storeB :: store where
  "storeB = [TaskList [taskB0, taskB1, taskB2, taskB3, taskB4], RobotList [robotA, robotB],
             Matrix [[0, 2, 1, 1, 0], [2, 0, 1, 1, 2], [1, 1, 0, 2, 1],
                     [1, 1, 2, 0, 1], [0, 2, 1, 1, 0]],
             PrecDict [3 \<mapsto> [1, 2]]]"

definition refB :: ProblemRef where
  "refB = \<lparr> tasks_at = 0, robots_at = 1, travel_times_at = 2, precedence_at = 3 \<rparr>"

section \<open>The coalition finder is correct\<close>

lemma has_skills_loop_binary:
  assumes "\<forall>i\<in>set is. required ! i = 1 \<longrightarrow> i < length sk \<and> (sk ! i = 0 \<or> sk ! i = 1)"
  shows "has_skills_loop sk required is = Inr (\<forall>i\<in>set is. required ! i = 1 \<longrightarrow> sk ! i = 1)"
  using assms by (induction "is") auto

lemma has_skills_dominates:
  assumes "length required \<le> length (skills r)" and "binary_vector (skills r)"
  shows "has_skills r required = Inr (dominates (skills r) required)"
proof -
  have "\<forall>i\<in>set [0..<length required]. required ! i = 1 \<longrightarrow>
          i < length (skills r) \<and> (skills r ! i = 0 \<or> skills r ! i = 1)"
    using assms by (auto simp: binary_vector_def list_all_length)
  then have "has_skills r required =
      Inr (\<forall>i\<in>set [0..<length required]. required ! i = 1 \<longrightarrow> skills r ! i = 1)"
    unfolding has_skills_def by (rule has_skills_loop_binary)
  moreover have "(\<forall>i\<in>set [0..<length required]. required ! i = 1 \<longrightarrow> skills r ! i = 1)
                 = dominates (skills r) required"
    using assms(1) by (auto simp: dominates_def list_all_iff)
  ultimately show ?thesis by simp
qed

lemma first_capable_find:
  assumes "wf_roster rs required"
  shows "first_capable rs required = Inr (find (\<lambda>r. dominates (skills r) required) rs)"
  using assms
  by (induction rs) (auto simp: wf_roster_def has_skills_dominates)

lemma find_minimal_coalition_first_capable:
  assumes "list_ex (\<lambda>req. req = 1) (requirements task)"
    and "first_capable rs (requirements task) = Inr (Some r)"
  shows "find_minimal_coalition task rs = Inr (Some [r])"
  using assms by (simp add: find_minimal_coalition_def)

text \<open>
  Claim C7.  For a task whose requirement vector has a set bit and a roster that meets
  the data model's invariants (binary skill vectors, no vector shorter than the
  requirement vector): if some robot dominates the requirement vector, the first loop
  of \<open>find_minimal_coalition\<close> returns the first dominating robot in roster order, and
  the result is the singleton coalition of that robot; the set-cover branch is not
  reached.  When the roster is sorted by id, that robot has the lowest id among the
  dominating ones.
\<close>

theorem single_dominating_robot:
  assumes bit: "list_ex (\<lambda>req. req = 1) (requirements task)"
    and wf: "wf_roster rs (requirements task)"
    and ex: "list_ex (\<lambda>r. dominates (skills r) (requirements task)) rs"
  shows "\<exists>i<length rs.
           dominates (skills (rs ! i)) (requirements task) \<and>
           (\<forall>j<i. \<not> dominates (skills (rs ! j)) (requirements task)) \<and>
           first_capable rs (requirements task) = Inr (Some (rs ! i)) \<and>
           find_minimal_coalition task rs = Inr (Some [rs ! i]) \<and>
           (sorted (map rid rs) \<longrightarrow>
              (\<forall>r\<in>set rs. dominates (skills r) (requirements task) \<longrightarrow> rid (rs ! i) \<le> rid r))"
proof -
  let ?P = "\<lambda>r. dominates (skills r) (requirements task)"
  from ex obtain r where "find ?P rs = Some r"
    by (cases "find ?P rs") (auto simp: find_None_iff list_ex_iff)
  then obtain i where i: "i < length rs" "?P (rs ! i)" "r = rs ! i" "\<forall>j<i. \<not> ?P (rs ! j)"
    by (auto simp: find_Some_iff)
  have fc: "first_capable rs (requirements task) = Inr (Some (rs ! i))"
    using first_capable_find [OF wf] \<open>find ?P rs = Some r\<close> i(3) by simp
  have low: "rid (rs ! i) \<le> rid r'" if s: "sorted (map rid rs)" and m: "r' \<in> set rs" and d: "?P r'" for r'
  proof -
    from m obtain k where k: "k < length rs" "rs ! k = r'" by (auto simp: in_set_conv_nth)
    with d i(4) have "i \<le> k" by (metis not_le_imp_less)
    with s k i(1) have "map rid rs ! i \<le> map rid rs ! k"
      by (simp add: sorted_iff_nth_mono del: nth_map)
    with k i(1) show ?thesis by simp
  qed
  show ?thesis
    using i fc low find_minimal_coalition_first_capable [OF bit fc] by blast
qed

lemma ones_iff: "i \<in> ones v \<longleftrightarrow> i < length v \<and> v ! i = 1"
  by (auto simp: ones_def)

lemma finite_ones: "finite (ones v)"
  by (simp add: ones_def)

lemma best_robot_loop_None:
  "best_robot_loop u rs (b0, c0) = (None, c) \<Longrightarrow>
     b0 = None \<and> c = c0 \<and> (\<forall>r\<in>set rs. card (u \<inter> ones (skills r)) \<le> card c0)"
  by (induction rs arbitrary: b0 c0) (auto simp: Let_def split: if_splits)

lemma best_robot_loop_Some:
  "best_robot_loop u rs (b0, c0) = (Some b, c) \<Longrightarrow>
     (b0 = Some b \<and> c = c0) \<or> (b \<in> set rs \<and> c = u \<inter> ones (skills b) \<and> card c0 < card c)"
proof (induction rs arbitrary: b0 c0)
  case Nil
  then show ?case by simp
next
  case (Cons r rs)
  show ?case
  proof (cases "card c0 < card (u \<inter> ones (skills r))")
    case True
    with Cons.prems have "best_robot_loop u rs (Some r, u \<inter> ones (skills r)) = (Some b, c)"
      by (simp add: Let_def)
    from Cons.IH [OF this] True show ?thesis by auto
  next
    case False
    with Cons.prems have "best_robot_loop u rs (b0, c0) = (Some b, c)"
      by (simp add: Let_def)
    from Cons.IH [OF this] show ?thesis by auto
  qed
qed

lemma insert_set_remove1: "b \<in> set a \<Longrightarrow> insert b (set (remove1 b a)) = set a"
  by (induction a) auto

lemma covered_by_remove1:
  assumes "b \<in> set a"
  shows "covered_by (u - u \<inter> ones (skills b)) (remove1 b a) \<longleftrightarrow> covered_by u a"
proof
  assume l: "covered_by (u - u \<inter> ones (skills b)) (remove1 b a)"
  show "covered_by u a"
    unfolding covered_by_def
  proof
    fix i assume i: "i \<in> u"
    show "\<exists>r\<in>set a. i \<in> ones (skills r)"
    proof (cases "i \<in> ones (skills b)")
      case True
      with assms show ?thesis by blast
    next
      case False
      with i l obtain r where "r \<in> set (remove1 b a)" "i \<in> ones (skills r)"
        unfolding covered_by_def by blast
      then show ?thesis using set_remove1_subset [of b a] by blast
    qed
  qed
next
  assume r: "covered_by u a"
  show "covered_by (u - u \<inter> ones (skills b)) (remove1 b a)"
    unfolding covered_by_def
  proof
    fix i assume i: "i \<in> u - u \<inter> ones (skills b)"
    then have "i \<in> u" "i \<notin> ones (skills b)" by auto
    with r obtain x where x: "x \<in> set a" "i \<in> ones (skills x)"
      unfolding covered_by_def by blast
    with \<open>i \<notin> ones (skills b)\<close> have "x \<noteq> b" by auto
    with x(1) have "x \<in> set (remove1 b a)" by (simp add: in_set_remove1)
    with x(2) show "\<exists>r\<in>set (remove1 b a). i \<in> ones (skills r)" by blast
  qed
qed

lemma cover_loop_correct:
  assumes "finite u"
  shows "(cover_loop u c a = None \<longleftrightarrow> \<not> covered_by u a) \<and>
         (\<forall>res. cover_loop u c a = Some res \<longrightarrow>
            (\<exists>c'. res = c @ c' \<and> set c' \<subseteq> set a \<and> covered_by u c'))"
  using assms
proof (induction u c a rule: cover_loop.induct)
  case (1 u c a)
  show ?case
  proof (cases "u = {}")
    case True
    then show ?thesis by (simp add: cover_loop.simps covered_by_def)
  next
    case False
    obtain bo cov where br: "best_robot_loop u a (None, {}) = (bo, cov)"
      by (cases "best_robot_loop u a (None, {})")
    show ?thesis
    proof (cases bo)
      case None
      with br have "\<forall>r\<in>set a. card (u \<inter> ones (skills r)) \<le> 0"
        using best_robot_loop_None [of u a None "{}" cov] by simp
      with \<open>finite u\<close> have "\<forall>r\<in>set a. u \<inter> ones (skills r) = {}" by simp
      with False have "\<not> covered_by u a" unfolding covered_by_def by blast
      moreover from False br None have "cover_loop u c a = None"
        by (simp add: cover_loop.simps)
      ultimately show ?thesis by simp
    next
      case (Some b)
      with br have b: "b \<in> set a" "cov = u \<inter> ones (skills b)"
        using best_robot_loop_Some [of u a None "{}" b cov] by auto
      have step: "cover_loop u c a = cover_loop (u - cov) (c @ [b]) (remove1 b a)"
        using False br Some by (subst cover_loop.simps) simp
      have fin: "finite (u - cov)" using \<open>finite u\<close> by simp
      note IH = "1.IH" [OF False br [symmetric] Some fin]
      have seta: "set a = insert b (set (remove1 b a))"
        using b(1) by (simp add: insert_set_remove1)
      have cov_iff: "covered_by (u - cov) (remove1 b a) \<longleftrightarrow> covered_by u a"
        unfolding b(2) using b(1) by (rule covered_by_remove1)
      have "cover_loop u c a = None \<longleftrightarrow> \<not> covered_by u a"
        using IH step cov_iff by simp
      moreover have "\<exists>c'. res = c @ c' \<and> set c' \<subseteq> set a \<and> covered_by u c'"
        if "cover_loop u c a = Some res" for res
      proof -
        from that step IH obtain c' where c': "res = (c @ [b]) @ c'" "set c' \<subseteq> set (remove1 b a)"
          "covered_by (u - cov) c'" by auto
        have "covered_by u (b # c')"
          using c'(3) unfolding covered_by_def b(2) by auto
        moreover have "set (b # c') \<subseteq> set a"
          using c'(2) b(1) seta by auto
        ultimately show ?thesis using c'(1) by (intro exI [of _ "b # c'"]) simp
      qed
      ultimately show ?thesis by blast
    qed
  qed
qed

lemma ones_empty: "\<not> list_ex (\<lambda>req. req = 1) v \<Longrightarrow> ones v = {}"
  by (auto simp: ones_def list_ex_iff filter_empty_conv dest: nth_mem)

lemma dominates_covered:
  assumes "dominates (skills r) required"
  shows "covered_by (ones required) [r]"
  using assms by (auto simp: covered_by_def dominates_def list_all_iff ones_iff)

lemma covered_by_mono: "covered_by u c \<Longrightarrow> set c \<subseteq> set rs \<Longrightarrow> covered_by u rs"
  unfolding covered_by_def by blast

text \<open>
  Claim C2.  On a roster that meets the data model's invariants,
  \<open>find_minimal_coalition\<close> raises nothing, returns \<open>None\<close> exactly when the union
  of all robots' skill vectors misses a required index, and every coalition it returns
  is drawn from the roster and covers every required index.
\<close>

theorem coalition_covers:
  assumes wf: "wf_roster rs (requirements task)"
  shows "(find_minimal_coalition task rs = Inr None
            \<longleftrightarrow> \<not> covered_by (ones (requirements task)) rs) \<and>
         (\<forall>c. find_minimal_coalition task rs = Inr (Some c)
            \<longrightarrow> covered_by (ones (requirements task)) c \<and> set c \<subseteq> set rs) \<and>
         (\<exists>res. find_minimal_coalition task rs = Inr res)"
proof (cases "list_ex (\<lambda>req. req = 1) (requirements task)")
  case False
  then have "find_minimal_coalition task rs = Inr (Some [])"
    by (simp add: find_minimal_coalition_def)
  moreover from False have "ones (requirements task) = {}" by (rule ones_empty)
  ultimately show ?thesis by (simp add: covered_by_def)
next
  case True
  let ?P = "\<lambda>r. dominates (skills r) (requirements task)"
  have fc: "first_capable rs (requirements task) = Inr (find ?P rs)"
    using wf by (rule first_capable_find)
  show ?thesis
  proof (cases "find ?P rs")
    case (Some r)
    then have r: "r \<in> set rs" "?P r"
      by (auto simp: find_Some_iff)
    have res: "find_minimal_coalition task rs = Inr (Some [r])"
      using True fc Some by (simp add: find_minimal_coalition_def)
    have c1: "covered_by (ones (requirements task)) [r]"
      using r(2) by (rule dominates_covered)
    then have "covered_by (ones (requirements task)) rs"
      using r(1) by (auto intro: covered_by_mono)
    with res c1 r(1) show ?thesis by simp
  next
    case None
    have res: "find_minimal_coalition task rs = Inr (cover_loop (ones (requirements task)) [] rs)"
      using True fc None by (simp add: find_minimal_coalition_def)
    note cl = cover_loop_correct [OF finite_ones, of "requirements task" "[]" rs]
    show ?thesis using res cl by auto
  qed
qed

theorem single_dominating_robot_witness:
  "list_ex (\<lambda>req. req = 1) (requirements t_req11) \<and>
   wf_roster [r10, r11, r01, r11] (requirements t_req11) \<and>
   list_ex (\<lambda>r. dominates (skills r) (requirements t_req11)) [r10, r11, r01, r11] \<and>
   find_minimal_coalition t_req11 [r10, r11, r01, r11] = Inr (Some [r11])"
proof -
  have h1: "list_ex (\<lambda>req. req = 1) (requirements t_req11)"
    by (simp add: t_req11_def)
  have h2: "wf_roster [r10, r11, r01, r11] (requirements t_req11)"
    by (simp add: wf_roster_def binary_vector_def t_req11_def r10_def r11_def r01_def)
  have h3: "list_ex (\<lambda>r. dominates (skills r) (requirements t_req11)) [r10, r11, r01, r11]"
    by (simp add: dominates_def t_req11_def r10_def r11_def r01_def upt_rec)
  have d0: "\<not> dominates (skills r10) (requirements t_req11)"
    by (simp add: dominates_def t_req11_def r10_def upt_rec)
  from single_dominating_robot [OF h1 h2 h3] obtain i where
    i: "i < length [r10, r11, r01, r11]"
       "dominates (skills ([r10, r11, r01, r11] ! i)) (requirements t_req11)"
       "\<forall>j<i. \<not> dominates (skills ([r10, r11, r01, r11] ! j)) (requirements t_req11)"
       "find_minimal_coalition t_req11 [r10, r11, r01, r11] = Inr (Some [[r10, r11, r01, r11] ! i])"
    by blast
  have d1: "dominates (skills r11) (requirements t_req11)"
    by (simp add: dominates_def t_req11_def r11_def upt_rec)
  have "i = 1"
  proof -
    have "i \<noteq> 0"
    proof
      assume "i = 0"
      with i(2) d0 show False by simp
    qed
    moreover have "\<not> 1 < i"
    proof
      assume "1 < i"
      with i(3) have "\<not> dominates (skills ([r10, r11, r01, r11] ! 1)) (requirements t_req11)"
        by blast
      with d1 show False by simp
    qed
    ultimately show ?thesis by simp
  qed
  with i(4) h1 h2 h3 show ?thesis by simp
qed

theorem coalition_covers_witness:
  "wf_roster [r10, r01] (requirements t_req11) \<and>
   find_minimal_coalition t_req11 [r10, r01] = Inr (Some [r10, r01]) \<and>
   covered_by (ones (requirements t_req11)) [r10, r01] \<and>
   wf_roster [r10, r00] (requirements t_req11) \<and>
   find_minimal_coalition t_req11 [r10, r00] = Inr None \<and>
   \<not> covered_by (ones (requirements t_req11)) [r10, r00]"
proof -
  have h1: "wf_roster [r10, r01] (requirements t_req11)"
    by (simp add: wf_roster_def binary_vector_def t_req11_def r10_def r01_def)
  have h2: "wf_roster [r10, r00] (requirements t_req11)"
    by (simp add: wf_roster_def binary_vector_def t_req11_def r10_def r00_def)
  have e1: "find_minimal_coalition t_req11 [r10, r01] = Inr (Some [r10, r01])"
    by (simp add: find_minimal_coalition_def has_skills_def ones_def cover_loop.simps upt_rec
        t_req11_def r10_def r01_def)
  have e2: "find_minimal_coalition t_req11 [r10, r00] = Inr None"
    by (simp add: find_minimal_coalition_def has_skills_def ones_def cover_loop.simps upt_rec
        t_req11_def r10_def r00_def)
  from coalition_covers [OF h1] e1 have c1: "covered_by (ones (requirements t_req11)) [r10, r01]"
    by blast
  from coalition_covers [OF h2] e2 have c2: "\<not> covered_by (ones (requirements t_req11)) [r10, r00]"
    by blast
  from h1 h2 e1 e2 c1 c2 show ?thesis by simp
qed

section \<open>Instances built by the constructor\<close>

text \<open>
  The constructor numbers tasks and robots by their position, so the ids of a
  constructed instance are dense and distinct.
\<close>

lemma make_tasks_ids: "make_tasks d is = Inr ts \<Longrightarrow> map tid ts = is"
  by (induction "is" arbitrary: ts) (auto split: if_splits sum.splits)

lemma constructed_ids:
  assumes "ProblemInstance_init d = Inr p"
  shows "map tid (tasks p) = [0..<length (tasks p)]"
    and "map rid (robots p) = [0..<length (robots p)]"
    and "distinct (map rid (robots p))"
proof -
  from assms obtain ts where ts: "make_tasks d [0..<length (raw_T_e d)] = Inr ts"
    and p: "tasks p = ts"
           "robots p = map (\<lambda>i. \<lparr> rid = i, skills = raw_Q d ! i \<rparr>) [0..<length (raw_Q d)]"
    by (auto simp: ProblemInstance_init_def split: sum.splits)
  from make_tasks_ids [OF ts] have m: "map tid ts = [0..<length (raw_T_e d)]" .
  then have "length ts = length (raw_T_e d)" by (metis length_map length_upt minus_nat.diff_0)
  with m p(1) show "map tid (tasks p) = [0..<length (tasks p)]" by simp
  from p(2) show r: "map rid (robots p) = [0..<length (robots p)]"
    by (simp add: comp_def)
  then show "distinct (map rid (robots p))" by simp
qed

section \<open>One round selects the earliest finish\<close>

lemma candidate_task: "candidate p st t = Inr (Some c) \<Longrightarrow> a_task c = t"
  by (auto simp: candidate_def Let_def split: if_splits sum.splits option.splits list.splits)

lemma below_trans: "x < y \<Longrightarrow> below y e \<Longrightarrow> below x e"
  by (cases e) auto

lemma not_below_le: "\<not> below y e \<Longrightarrow> below x e \<Longrightarrow> x < y"
  by (cases e) auto

lemma earliest_first_skip:
  assumes "earliest_first p st ts a"
    and "\<forall>c. candidate p st t = Inr (Some c) \<longrightarrow> a_finish_time a < a_finish_time c"
  shows "earliest_first p st (t # ts) a"
proof -
  from assms(1) obtain pre post where h: "ts = pre @ a_task a # post"
    "candidate p st (a_task a) = Inr (Some a)"
    "\<forall>t\<in>set pre. \<forall>c. candidate p st t = Inr (Some c) \<longrightarrow> a_finish_time a < a_finish_time c"
    "\<forall>t\<in>set post. \<forall>c. candidate p st t = Inr (Some c) \<longrightarrow> a_finish_time a \<le> a_finish_time c"
    unfolding earliest_first_def by blast
  have "t # ts = (t # pre) @ a_task a # post" using h(1) by simp
  moreover have "\<forall>t'\<in>set (t # pre). \<forall>c. candidate p st t' = Inr (Some c) \<longrightarrow> a_finish_time a < a_finish_time c"
    using h(3) assms(2) by simp
  ultimately show ?thesis unfolding earliest_first_def using h(2) h(4) by blast
qed

lemma earliest_first_head:
  assumes "candidate p st t = Inr (Some c)"
    and "\<forall>t'\<in>set ts. \<forall>c'. candidate p st t' = Inr (Some c') \<longrightarrow> a_finish_time c \<le> a_finish_time c'"
  shows "earliest_first p st (t # ts) c"
proof -
  have "a_task c = t" using assms(1) by (rule candidate_task)
  then have "t # ts = [] @ a_task c # ts" by simp
  then show ?thesis unfolding earliest_first_def using assms \<open>a_task c = t\<close> by fastforce
qed

lemma round_loop_char:
  assumes "round_loop p st ts (b0, e0) = Inr (b, e)"
  shows "(b = b0 \<and> e = e0 \<and>
            (\<forall>t\<in>set ts. \<forall>c. candidate p st t = Inr (Some c) \<longrightarrow> \<not> below (a_finish_time c) e0))
         \<or> (\<exists>a. b = Some a \<and> e = Some (a_finish_time a) \<and> below (a_finish_time a) e0 \<and>
                earliest_first p st ts a)"
  using assms
proof (induction ts arbitrary: b0 e0)
  case Nil
  then show ?case by simp
next
  case (Cons t ts)
  show ?case
  proof (cases "candidate p st t")
    case (Inl err)
    with Cons.prems show ?thesis by simp
  next
    case (Inr co)
    show ?thesis
    proof (cases co)
      case None
      with Inr Cons.prems have "round_loop p st ts (b0, e0) = Inr (b, e)" by simp
      from Cons.IH [OF this] show ?thesis
      proof
        assume "b = b0 \<and> e = e0 \<and>
          (\<forall>t\<in>set ts. \<forall>c. candidate p st t = Inr (Some c) \<longrightarrow> \<not> below (a_finish_time c) e0)"
        with Inr None show ?thesis by simp
      next
        assume "\<exists>a. b = Some a \<and> e = Some (a_finish_time a) \<and> below (a_finish_time a) e0 \<and>
                earliest_first p st ts a"
        then obtain a where a: "b = Some a" "e = Some (a_finish_time a)"
          "below (a_finish_time a) e0" "earliest_first p st ts a" by blast
        have "earliest_first p st (t # ts) a"
          using a(4) Inr None by (intro earliest_first_skip) simp_all
        with a show ?thesis by blast
      qed
    next
      case (Some c)
      show ?thesis
      proof (cases "below (a_finish_time c) e0")
        case True
        with Inr Some Cons.prems have
          "round_loop p st ts (Some c, Some (a_finish_time c)) = Inr (b, e)" by simp
        from Cons.IH [OF this] show ?thesis
        proof
          assume h: "b = Some c \<and> e = Some (a_finish_time c) \<and>
            (\<forall>t\<in>set ts. \<forall>c'. candidate p st t = Inr (Some c') \<longrightarrow>
                \<not> below (a_finish_time c') (Some (a_finish_time c)))"
          then have "\<forall>t'\<in>set ts. \<forall>c'. candidate p st t' = Inr (Some c') \<longrightarrow>
                a_finish_time c \<le> a_finish_time c'" by (simp add: not_less)
          with Inr Some have "earliest_first p st (t # ts) c"
            by (intro earliest_first_head) simp_all
          with h True show ?thesis by blast
        next
          assume "\<exists>a. b = Some a \<and> e = Some (a_finish_time a) \<and>
                below (a_finish_time a) (Some (a_finish_time c)) \<and> earliest_first p st ts a"
          then obtain a where a: "b = Some a" "e = Some (a_finish_time a)"
            "a_finish_time a < a_finish_time c" "earliest_first p st ts a" by auto
          have "earliest_first p st (t # ts) a"
            using a(4) a(3) Inr Some by (intro earliest_first_skip) simp_all
          moreover have "below (a_finish_time a) e0"
            using a(3) True by (rule below_trans)
          ultimately show ?thesis using a by blast
        qed
      next
        case False
        with Inr Some Cons.prems have "round_loop p st ts (b0, e0) = Inr (b, e)" by simp
        from Cons.IH [OF this] show ?thesis
        proof
          assume "b = b0 \<and> e = e0 \<and>
            (\<forall>t\<in>set ts. \<forall>c. candidate p st t = Inr (Some c) \<longrightarrow> \<not> below (a_finish_time c) e0)"
          with Inr Some False show ?thesis by simp
        next
          assume "\<exists>a. b = Some a \<and> e = Some (a_finish_time a) \<and> below (a_finish_time a) e0 \<and>
                earliest_first p st ts a"
          then obtain a where a: "b = Some a" "e = Some (a_finish_time a)"
            "below (a_finish_time a) e0" "earliest_first p st ts a" by blast
          have "a_finish_time a < a_finish_time c"
            using False a(3) by (rule not_below_le)
          then have "earliest_first p st (t # ts) a"
            using a(4) Inr Some by (intro earliest_first_skip) simp_all
          with a show ?thesis by blast
        qed
      qed
    qed
  qed
qed

lemma round_loop_error:
  "round_loop p st ts acc = Inl err \<Longrightarrow> \<exists>t\<in>set ts. candidate p st t = Inl err"
proof (induction ts arbitrary: acc)
  case Nil
  then show ?case by simp
next
  case (Cons t ts)
  obtain b0 e0 where acc: "acc = (b0, e0)" by (cases acc)
  show ?case
  proof (cases "candidate p st t")
    case (Inl x)
    with Cons.prems acc show ?thesis by simp
  next
    case (Inr co)
    with Cons.prems acc obtain acc' where "round_loop p st ts acc' = Inl err"
      by (auto split: option.splits if_splits)
    from Cons.IH [OF this] show ?thesis by auto
  qed
qed

lemma round_loop_no_error:
  "round_loop p st ts acc = Inr res \<Longrightarrow> \<forall>t\<in>set ts. \<exists>c. candidate p st t = Inr c"
proof (induction ts arbitrary: acc)
  case Nil
  then show ?case by simp
next
  case (Cons t ts)
  obtain b0 e0 where acc: "acc = (b0, e0)" by (cases acc)
  show ?case
  proof (cases "candidate p st t")
    case (Inl x)
    with Cons.prems acc show ?thesis by simp
  next
    case (Inr co)
    with Cons.prems acc obtain acc' where "round_loop p st ts acc' = Inr res"
      by (auto split: option.splits if_splits)
    from Cons.IH [OF this] Inr show ?thesis by auto
  qed
qed

lemma fold_max_Max: "fold max xs (x::real) = Max (set (x # xs))"
  by (rule Max.set_eq_fold [symmetric])

lemma py_max_default_Max:
  "py_max_default (map f qs) 0 = (if qs = [] then 0 else Max (f ` set qs))"
  by (cases qs) (simp_all add: fold_max_Max del: set_simps, simp)

lemma arrival_times_map:
  "arrival_times p st t c = Inr ats \<Longrightarrow>
     ats = map (\<lambda>r. robot_available_time st ! rid r
                  + travel_times p ! (robot_current_location st ! rid r) ! tid t) c"
  by (induction c arbitrary: ats)
     (auto simp: arrival_time_def Let_def split: sum.splits if_splits)

lemma py_max_Max: "py_max xs = Inr m \<Longrightarrow> xs \<noteq> [] \<and> m = Max (set xs)"
  by (cases xs) (auto simp: fold_max_Max simp del: set_simps)

lemma candidate_formula:
  assumes "candidate p st t = Inr (Some a)"
  shows "a_task a = t \<and> ready p st t \<and>
         find_minimal_coalition t (robots p) = Inr (Some (a_coalition a)) \<and>
         a_coalition a \<noteq> [] \<and>
         a_start_time a = max (coalition_ready_time p st t (a_coalition a)) (max_pred_finish p st t) \<and>
         a_finish_time a = a_start_time a + execution_time t"
proof -
  from assms have rd: "ready p st t"
    by (auto simp: candidate_def ready_def predecessors_of_def Let_def split: if_splits)
  from assms rd obtain r rs ats crt where
    f: "find_minimal_coalition t (robots p) = Inr (Some (r # rs))" and
    at: "arrival_times p st t (r # rs) = Inr ats" and
    pm: "py_max ats = Inr crt" and
    a: "a = \<lparr> a_task = t, a_coalition = r # rs,
              a_start_time = max crt (py_max_default
                 (map (\<lambda>q. dict_get (task_finish_times st) q 0) (predecessors_of p t)) 0),
              a_finish_time = max crt (py_max_default
                 (map (\<lambda>q. dict_get (task_finish_times st) q 0) (predecessors_of p t)) 0)
                 + execution_time t \<rparr>"
    by (auto simp: candidate_def ready_def predecessors_of_def Let_def
             split: if_splits sum.splits option.splits list.splits)
  from at have "ats = map (\<lambda>r. robot_available_time st ! rid r
                  + travel_times p ! (robot_current_location st ! rid r) ! tid t) (r # rs)"
    by (rule arrival_times_map)
  with pm have "crt = coalition_ready_time p st t (r # rs)"
    unfolding coalition_ready_time_def using py_max_Max [OF pm] by (simp del: set_simps list.map)
  moreover have "py_max_default
                 (map (\<lambda>q. dict_get (task_finish_times st) q 0) (predecessors_of p t)) 0
          = max_pred_finish p st t"
    by (simp add: py_max_default_Max max_pred_finish_def)
  ultimately show ?thesis using a f rd by simp
qed

lemma arrival_times_ok:
  "arrival_times p st t c = Inr ats \<Longrightarrow>
     \<forall>r\<in>set c. rid r < length (robot_available_time st) \<and>
                rid r < length (robot_current_location st) \<and>
                robot_current_location st ! rid r < length (travel_times p) \<and>
                tid t < length (travel_times p ! (robot_current_location st ! rid r))"
  by (induction c arbitrary: ats)
     (auto simp: arrival_time_def Let_def split: sum.splits if_splits)

lemma candidate_arrival:
  assumes "candidate p st t = Inr (Some a)" and "r \<in> set (a_coalition a)"
  shows "rid r < length (robot_available_time st)"
    and "rid r < length (robot_current_location st)"
    and "robot_current_location st ! rid r < length (travel_times p)"
    and "tid t < length (travel_times p ! (robot_current_location st ! rid r))"
    and "robot_available_time st ! rid r
           + travel_times p ! (robot_current_location st ! rid r) ! tid t \<le> a_start_time a"
proof -
  from assms(1) obtain ats where at: "arrival_times p st t (a_coalition a) = Inr ats"
    by (auto simp: candidate_def Let_def split: if_splits sum.splits option.splits list.splits)
  from arrival_times_ok [OF at] assms(2) show
    "rid r < length (robot_available_time st)"
    "rid r < length (robot_current_location st)"
    "robot_current_location st ! rid r < length (travel_times p)"
    "tid t < length (travel_times p ! (robot_current_location st ! rid r))"
    by simp_all
  from candidate_formula [OF assms(1)] have
    "coalition_ready_time p st t (a_coalition a) \<le> a_start_time a" by simp
  moreover have "robot_available_time st ! rid r
           + travel_times p ! (robot_current_location st ! rid r) ! tid t
        \<le> coalition_ready_time p st t (a_coalition a)"
    unfolding coalition_ready_time_def using assms(2) by (intro Max_ge) auto
  ultimately show "robot_available_time st ! rid r
           + travel_times p ! (robot_current_location st ! rid r) ! tid t \<le> a_start_time a"
    by simp
qed

lemma select_round_char:
  "case select_round p st of
      Inl err \<Rightarrow> (\<exists>t\<in>set (tasks_to_schedule st). candidate p st t = Inl err)
    | Inr None \<Rightarrow> (\<forall>t\<in>set (tasks_to_schedule st). candidate p st t = Inr None)
    | Inr (Some a) \<Rightarrow> earliest_first p st (tasks_to_schedule st) a"
proof (cases "round_loop p st (tasks_to_schedule st) (None, None)")
  case (Inl err)
  then have "select_round p st = Inl err" by (simp add: select_round_def)
  with round_loop_error [OF Inl] show ?thesis by simp
next
  case (Inr res)
  obtain b e where res: "res = (b, e)" by (cases res)
  with Inr have sel: "select_round p st = Inr b" by (simp add: select_round_def)
  note noerr = round_loop_no_error [OF Inr]
  from Inr res have "round_loop p st (tasks_to_schedule st) (None, None) = Inr (b, e)" by simp
  from round_loop_char [OF this] show ?thesis
  proof
    assume h: "b = None \<and> e = None \<and>
      (\<forall>t\<in>set (tasks_to_schedule st). \<forall>c. candidate p st t = Inr (Some c)
          \<longrightarrow> \<not> below (a_finish_time c) None)"
    have "candidate p st t = Inr None" if "t \<in> set (tasks_to_schedule st)" for t
    proof -
      from noerr that obtain c where c: "candidate p st t = Inr c" by blast
      with h that show ?thesis by (cases c) auto
    qed
    with sel h show ?thesis by simp
  next
    assume "\<exists>a. b = Some a \<and> e = Some (a_finish_time a) \<and> below (a_finish_time a) None \<and>
              earliest_first p st (tasks_to_schedule st) a"
    with sel show ?thesis by auto
  qed
qed

lemma select_round_Some:
  assumes "select_round p st = Inr (Some a)"
  shows "a_task a \<in> set (tasks_to_schedule st)" and "candidate p st (a_task a) = Inr (Some a)"
proof -
  from select_round_char [where p = p and st = st] assms have "earliest_first p st (tasks_to_schedule st) a"
    by simp
  then show "a_task a \<in> set (tasks_to_schedule st)" and "candidate p st (a_task a) = Inr (Some a)"
    by (auto simp: earliest_first_def)
qed


section \<open>Commits and the run of the main loop\<close>

subsection \<open>Effects of a commit\<close>

lemma commit_robots_ConsE:
  assumes "commit_robots st a (r # rs) = Inr st'"
  obtains st1 es where
    "rid r < length (robot_available_time st)"
    "rid r < length (robot_current_location st)"
    "map_of (robot_schedules st) (rid r) = Some es"
    "robot_available_time st1 = (robot_available_time st)[rid r := a_finish_time a]"
    "robot_current_location st1 = (robot_current_location st)[rid r := tid (a_task a)]"
    "robot_schedules st1 = AList.update (rid r) (es @ [entry_of a]) (robot_schedules st)"
    "tasks_to_schedule st1 = tasks_to_schedule st"
    "scheduled_task_ids st1 = scheduled_task_ids st"
    "task_finish_times st1 = task_finish_times st"
    "printed st1 = printed st"
    "commit_robots st1 a rs = Inr st'"
proof -
  from assms obtain es where
    h: "rid r < length (robot_available_time st)"
       "rid r < length (robot_current_location st)"
       "map_of (robot_schedules st) (rid r) = Some es"
       "commit_robots
            (st\<lparr> robot_available_time := (robot_available_time st)[rid r := a_finish_time a],
                 robot_current_location := (robot_current_location st)[rid r := tid (a_task a)],
                 robot_schedules := AList.update (rid r) (es @ [entry_of a]) (robot_schedules st) \<rparr>)
            a rs = Inr st'"
    by (auto simp: entry_of_def split: if_splits option.splits)
  show thesis
    by (rule that [OF h(1-3) _ _ _ _ _ _ _ h(4)]) simp_all
qed

lemma commit_robots_frame:
  "commit_robots st a rs = Inr st' \<Longrightarrow>
     tasks_to_schedule st' = tasks_to_schedule st \<and>
     scheduled_task_ids st' = scheduled_task_ids st \<and>
     task_finish_times st' = task_finish_times st \<and>
     printed st' = printed st \<and>
     length (robot_available_time st') = length (robot_available_time st) \<and>
     length (robot_current_location st') = length (robot_current_location st) \<and>
     map fst (robot_schedules st') = map fst (robot_schedules st)"
proof (induction rs arbitrary: st)
  case Nil
  then show ?case by simp
next
  case (Cons r rs)
  from Cons.prems obtain st1 es where h:
    "map_of (robot_schedules st) (rid r) = Some es"
    "robot_available_time st1 = (robot_available_time st)[rid r := a_finish_time a]"
    "robot_current_location st1 = (robot_current_location st)[rid r := tid (a_task a)]"
    "robot_schedules st1 = AList.update (rid r) (es @ [entry_of a]) (robot_schedules st)"
    "tasks_to_schedule st1 = tasks_to_schedule st"
    "scheduled_task_ids st1 = scheduled_task_ids st"
    "task_finish_times st1 = task_finish_times st"
    "printed st1 = printed st"
    "commit_robots st1 a rs = Inr st'"
    by (rule commit_robots_ConsE)
  from h(1) have "rid r \<in> set (map fst (robot_schedules st))"
    by (metis map_of_eq_None_iff option.distinct(1) set_map)
  with Cons.IH [OF h(9)] h show ?case by (simp add: update_keys)
qed

lemma commit_robots_in_range:
  "commit_robots st a rs = Inr st' \<Longrightarrow> \<forall>r\<in>set rs. rid r < length (robot_available_time st)"
proof (induction rs arbitrary: st)
  case Nil
  then show ?case by simp
next
  case (Cons r rs)
  from Cons.prems obtain st1 es where h:
    "rid r < length (robot_available_time st)"
    "robot_available_time st1 = (robot_available_time st)[rid r := a_finish_time a]"
    "commit_robots st1 a rs = Inr st'"
    by (rule commit_robots_ConsE)
  from Cons.IH [OF h(3)] h(1,2) show ?case by simp
qed

lemma commit_robots_available:
  "commit_robots st a rs = Inr st' \<Longrightarrow> i < length (robot_available_time st) \<Longrightarrow>
     robot_available_time st' ! i =
       (if i \<in> rid ` set rs then a_finish_time a else robot_available_time st ! i)"
proof (induction rs arbitrary: st)
  case Nil
  then show ?case by simp
next
  case (Cons r rs)
  from Cons.prems(1) obtain st1 es where
    av: "robot_available_time st1 = (robot_available_time st)[rid r := a_finish_time a]" and
    rec: "commit_robots st1 a rs = Inr st'"
    by (rule commit_robots_ConsE)
  from av Cons.prems(2) have "i < length (robot_available_time st1)" by simp
  from Cons.IH [OF rec this] av Cons.prems(2) show ?case
    by (auto simp: nth_list_update)
qed

lemma commit_robots_location:
  "commit_robots st a rs = Inr st' \<Longrightarrow> i < length (robot_current_location st) \<Longrightarrow>
     robot_current_location st' ! i =
       (if i \<in> rid ` set rs then tid (a_task a) else robot_current_location st ! i)"
proof (induction rs arbitrary: st)
  case Nil
  then show ?case by simp
next
  case (Cons r rs)
  from Cons.prems(1) obtain st1 es where
    av: "robot_current_location st1 = (robot_current_location st)[rid r := tid (a_task a)]" and
    rec: "commit_robots st1 a rs = Inr st'"
    by (rule commit_robots_ConsE)
  from av Cons.prems(2) have "i < length (robot_current_location st1)" by simp
  from Cons.IH [OF rec this] av Cons.prems(2) show ?case
    by (auto simp: nth_list_update)
qed

lemma commit_robots_schedules:
  "commit_robots st a rs = Inr st' \<Longrightarrow>
     map_of (robot_schedules st') i =
       map_option (\<lambda>es. es @ map (\<lambda>r. entry_of a) (filter (\<lambda>r. rid r = i) rs))
         (map_of (robot_schedules st) i)"
proof (induction rs arbitrary: st)
  case Nil
  then show ?case by (simp add: option.map_ident)
next
  case (Cons r rs)
  from Cons.prems obtain st1 es where
    es: "map_of (robot_schedules st) (rid r) = Some es" and
    sc: "robot_schedules st1 = AList.update (rid r) (es @ [entry_of a]) (robot_schedules st)" and
    rec: "commit_robots st1 a rs = Inr st'"
    by (rule commit_robots_ConsE)
  from Cons.IH [OF rec] sc es show ?case
    by (cases "rid r = i") (auto simp: update_conv')
qed

lemma commit_char:
  assumes "commit st a = Inr st'"
  obtains st1 where
    "commit_robots st a (a_coalition a) = Inr st1"
    "a_task a \<in> set (tasks_to_schedule st)"
    "robot_available_time st' = robot_available_time st1"
    "robot_current_location st' = robot_current_location st1"
    "robot_schedules st' = robot_schedules st1"
    "printed st' = printed st"
    "scheduled_task_ids st' = insert (tid (a_task a)) (scheduled_task_ids st)"
    "task_finish_times st' = (task_finish_times st)(tid (a_task a) \<mapsto> a_finish_time a)"
    "tasks_to_schedule st' = remove1 (a_task a) (tasks_to_schedule st)"
proof -
  from assms obtain st1 where
    r: "commit_robots st a (a_coalition a) = Inr st1" and
    m: "a_task a \<in> set (tasks_to_schedule st1)" and
    e: "st' = st1\<lparr> scheduled_task_ids := insert (tid (a_task a)) (scheduled_task_ids st1),
                    task_finish_times := (task_finish_times st1)(tid (a_task a) \<mapsto> a_finish_time a),
                    tasks_to_schedule := remove1 (a_task a) (tasks_to_schedule st1) \<rparr>"
    by (auto simp: commit_def split: sum.splits if_splits)
  note fr = commit_robots_frame [OF r]
  show thesis
  proof (rule that [OF r])
    show "a_task a \<in> set (tasks_to_schedule st)" using m fr by simp
    show "task_finish_times st' = (task_finish_times st)(tid (a_task a) \<mapsto> a_finish_time a)"
      using e fr by simp
  qed (use e fr in simp_all)
qed

subsection \<open>The run relation follows the loop\<close>

lemma main_loop_step:
  assumes "tasks_to_schedule st \<noteq> []" "select_round p st = Inr (Some a)" "commit st a = Inr st'"
  shows "main_loop p st = main_loop p st'"
  using assms by (subst main_loop.simps) simp

lemma main_loop_stall:
  assumes "tasks_to_schedule st \<noteq> []" "select_round p st = Inr None"
  shows "main_loop p st = Inr (st\<lparr> printed := printed st @ [warning] \<rparr>)"
  using assms by (subst main_loop.simps) simp

lemma main_loop_done:
  assumes "tasks_to_schedule st = []"
  shows "main_loop p st = Inr st"
  using assms by (subst main_loop.simps) simp

lemma main_loop_error:
  assumes "tasks_to_schedule st \<noteq> []" "select_round p st = Inl e"
  shows "main_loop p st = Inl e"
  using assms by (subst main_loop.simps) simp

lemma main_loop_commit_error:
  assumes "tasks_to_schedule st \<noteq> []" "select_round p st = Inr (Some a)" "commit st a = Inl e"
  shows "main_loop p st = Inl e"
  using assms by (subst main_loop.simps) simp

lemma run_main_loop: "run p hist st \<Longrightarrow> main_loop p (init_state p) = main_loop p st"
  by (induction rule: run.induct) (simp_all add: main_loop_step)

lemma main_loop_run:
  assumes "main_loop p st = Inr fin" and "run p hist st"
  shows "\<exists>hist' st'. run p hist' st' \<and>
           ((tasks_to_schedule st' = [] \<and> fin = st') \<or>
            (tasks_to_schedule st' \<noteq> [] \<and> select_round p st' = Inr None \<and>
             fin = st'\<lparr> printed := printed st' @ [warning] \<rparr>))"
  using assms
proof (induction p st arbitrary: hist rule: main_loop.induct)
  case (1 p st)
  show ?case
  proof (cases "tasks_to_schedule st = []")
    case True
    with "1.prems" show ?thesis by (auto simp: main_loop_done)
  next
    case False
    show ?thesis
    proof (cases "select_round p st")
      case (Inl e)
      with False "1.prems"(1) show ?thesis by (subst (asm) main_loop.simps) simp
    next
      case (Inr bo)
      show ?thesis
      proof (cases bo)
        case None
        with Inr False "1.prems" show ?thesis by (auto simp: main_loop_stall)
      next
        case (Some a)
        show ?thesis
        proof (cases "commit st a")
          case (Inl e)
          with Some Inr False "1.prems"(1) show ?thesis by (subst (asm) main_loop.simps) simp
        next
          case st': (Inr st')
          have r: "run p (hist @ [a]) st'"
            using "1.prems"(2) False Inr Some st' by (auto intro: run_step)
          have m: "main_loop p st' = Inr fin"
            using "1.prems"(1) main_loop_step [of st p a st'] False Inr Some st' by simp
          have pos: "0 < length (tasks_to_schedule st)" using False by simp
          from "1.IH" [OF pos _ _ st' m r] Inr Some show ?thesis by simp
        qed
      qed
    qed
  qed
qed

subsection \<open>Invariants of the run\<close>

lemma map_of_init_schedules:
  "map_of (map (\<lambda>i. (i, [])) xs) i = (if i \<in> set xs then Some [] else None)"
  by (induction xs) auto

lemma init_state_shape:
  "map fst (robot_schedules (init_state p)) = [0..<num_robots p]"
  "dom (task_finish_times (init_state p)) = scheduled_task_ids (init_state p)"
  by (auto simp: init_state_def comp_def split: if_splits)

lemma run_shape:
  assumes "run p hist st"
  shows "length (robot_available_time st) = num_robots p \<and>
         length (robot_current_location st) = num_robots p \<and>
         map fst (robot_schedules st) = [0..<num_robots p] \<and>
         printed st = [] \<and>
         dom (task_finish_times st) = scheduled_task_ids st \<and>
         set (tasks_to_schedule st) \<subseteq> set (get_real_tasks p)"
  using assms
proof (induction rule: run.induct)
  case run_init
  have "length (robot_available_time (init_state p)) = num_robots p \<and>
        length (robot_current_location (init_state p)) = num_robots p \<and>
        printed (init_state p) = [] \<and>
        set (tasks_to_schedule (init_state p)) \<subseteq> set (get_real_tasks p)"
    by (simp add: init_state_def)
  with init_state_shape [of p] show ?case by simp
next
  case (run_step hist st a st')
  from run_step.hyps(4) obtain st1 where
    r: "commit_robots st a (a_coalition a) = Inr st1" and
    f: "robot_available_time st' = robot_available_time st1"
       "robot_current_location st' = robot_current_location st1"
       "robot_schedules st' = robot_schedules st1"
       "printed st' = printed st"
       "scheduled_task_ids st' = insert (tid (a_task a)) (scheduled_task_ids st)"
       "task_finish_times st' = (task_finish_times st)(tid (a_task a) \<mapsto> a_finish_time a)"
       "tasks_to_schedule st' = remove1 (a_task a) (tasks_to_schedule st)"
    by (rule commit_char)
  note fr = commit_robots_frame [OF r]
  have c1: "length (robot_available_time st') = num_robots p"
    using fr f(1) run_step.IH by simp
  have c2: "length (robot_current_location st') = num_robots p"
    using fr f(2) run_step.IH by simp
  have c3: "map fst (robot_schedules st') = [0..<num_robots p]"
    using fr f(3) run_step.IH by simp
  have c4: "printed st' = []"
    using f(4) run_step.IH by simp
  have "dom (task_finish_times st) = scheduled_task_ids st"
    using run_step.IH by simp
  then have c5: "dom (task_finish_times st') = scheduled_task_ids st'"
    unfolding f(5) f(6) by simp
  have c6: "set (tasks_to_schedule st') \<subseteq> set (get_real_tasks p)"
    using run_step.IH set_remove1_subset [of "a_task a" "tasks_to_schedule st"]
    unfolding f(7) by blast
  from c1 c2 c3 c4 c5 c6 show ?case by blast
qed

lemma entries_for_snoc:
  "entries_for i (hist @ [a]) =
     entries_for i hist @ map (\<lambda>r. entry_of a) (filter (\<lambda>r. rid r = i) (a_coalition a))"
  by (simp add: entries_for_def)

lemma run_schedules:
  assumes "run p hist st"
  shows "map_of (robot_schedules st) i = (if i < num_robots p then Some (entries_for i hist) else None)"
  using assms
proof (induction rule: run.induct)
  case run_init
  show ?case by (simp add: init_state_def map_of_init_schedules entries_for_def)
next
  case (run_step hist st a st')
  from run_step.hyps(4) obtain st1 where
    r: "commit_robots st a (a_coalition a) = Inr st1" and
    e: "robot_schedules st' = robot_schedules st1"
    by (rule commit_char)
  from commit_robots_schedules [OF r, of i] e run_step.IH show ?case
    by (simp add: entries_for_snoc)
qed

subsection \<open>Precedence\<close>

text \<open>
  Claim C4.  Whenever the loop selects an assignment for commit, every predecessor of
  its task is in \<open>scheduled_task_ids\<close> and has a recorded finish time, and the start
  time is at least each of these finish times, hence at least their maximum (0 for a
  task without predecessors).
\<close>

theorem commit_respects_precedence:
  assumes "run p hist st" and "select_round p st = Inr (Some a)"
  shows "(\<forall>q\<in>set (predecessors_of p (a_task a)).
            q \<in> scheduled_task_ids st \<and>
            (\<exists>f. task_finish_times st q = Some f \<and> f \<le> a_start_time a)) \<and>
         max_pred_finish p st (a_task a) \<le> a_start_time a \<and>
         (predecessors_of p (a_task a) = [] \<longrightarrow> 0 \<le> a_start_time a)"
proof -
  let ?t = "a_task a"
  from assms(2) have c: "candidate p st ?t = Inr (Some a)" by (rule select_round_Some)
  from candidate_formula [OF c] have
    rd: "ready p st ?t" and
    st: "a_start_time a = max (coalition_ready_time p st ?t (a_coalition a)) (max_pred_finish p st ?t)"
    by simp_all
  from st have m: "max_pred_finish p st ?t \<le> a_start_time a" by simp
  from run_shape [OF assms(1)] have d: "dom (task_finish_times st) = scheduled_task_ids st" by simp
  have "q \<in> scheduled_task_ids st \<and> (\<exists>f. task_finish_times st q = Some f \<and> f \<le> a_start_time a)"
    if q: "q \<in> set (predecessors_of p ?t)" for q
  proof -
    from rd q have s: "q \<in> scheduled_task_ids st" by (simp add: ready_def list_all_iff)
    with d obtain f where f: "task_finish_times st q = Some f" by auto
    from q have ne: "predecessors_of p ?t \<noteq> []" by auto
    have "dict_get (task_finish_times st) q 0 \<le> max_pred_finish p st ?t"
      unfolding max_pred_finish_def using ne q by (simp add: Max_ge)
    with f m have "f \<le> a_start_time a" by (simp add: dict_get_def)
    with s f show ?thesis by simp
  qed
  moreover have "0 \<le> a_start_time a" if "predecessors_of p ?t = []"
    using that m by (simp add: max_pred_finish_def)
  ultimately show ?thesis using m by blast
qed

subsection \<open>A stalled round\<close>

text \<open>
  Claim C6.  When a round of the run finds no candidate while tasks remain, the loop
  stops without raising: the state is unchanged but for the printed warning, the
  remaining tasks stay unscheduled, and \<open>greedy_heuristic\<close> returns a result whose
  schedules are those of that state, which hold exactly the entries of the assignments
  committed before.
\<close>

theorem stall_returns_partial_schedule:
  assumes "run p hist st" and "tasks_to_schedule st \<noteq> []" and "select_round p st = Inr None"
  shows "main_loop p (init_state p) = Inr (st\<lparr> printed := [warning] \<rparr>) \<and>
         greedy_heuristic p =
           Inr (\<lparr> makespan = py_max_default (robot_available_time st) 0,
                   n_tasks = length (get_real_tasks p),
                   n_robots = num_robots p,
                   res_robot_schedules = robot_schedules st \<rparr>, [warning]) \<and>
         map fst (robot_schedules st) = [0..<num_robots p] \<and>
         (\<forall>i<num_robots p. map_of (robot_schedules st) i = Some (entries_for i hist))"
proof -
  from run_shape [OF assms(1)] have pr: "printed st = []"
    and keys: "map fst (robot_schedules st) = [0..<num_robots p]" by simp_all
  have "main_loop p (init_state p) = main_loop p st"
    using assms(1) by (rule run_main_loop)
  also have "\<dots> = Inr (st\<lparr> printed := printed st @ [warning] \<rparr>)"
    using assms(2,3) by (rule main_loop_stall)
  finally have m: "main_loop p (init_state p) = Inr (st\<lparr> printed := [warning] \<rparr>)"
    using pr by simp
  then have "greedy_heuristic p =
           Inr (\<lparr> makespan = py_max_default (robot_available_time st) 0,
                   n_tasks = length (get_real_tasks p),
                   n_robots = num_robots p,
                   res_robot_schedules = robot_schedules st \<rparr>, [warning])"
    by (simp add: greedy_heuristic_def)
  with m keys run_schedules [OF assms(1)] show ?thesis by simp
qed

subsection \<open>Termination\<close>

lemma main_loop_fuel_enough:
  "length (tasks_to_schedule st) < n \<Longrightarrow> main_loop_fuel n p st = Some (main_loop p st)"
proof (induction n arbitrary: st)
  case 0
  then show ?case by simp
next
  case (Suc n)
  show ?case
  proof (cases "select_round p st")
    case (Inl e)
    then show ?thesis by (subst main_loop.simps) simp
  next
    case (Inr bo)
    show ?thesis
    proof (cases bo)
      case None
      with Inr show ?thesis by (subst main_loop.simps) simp
    next
      case (Some a)
      show ?thesis
      proof (cases "commit st a")
        case (Inl e)
        with Inr Some show ?thesis by (subst main_loop.simps) simp
      next
        case st': (Inr st')
        from commit_shrinks [OF st'] Suc.prems have "length (tasks_to_schedule st') < n" by simp
        from Suc.IH [OF this] Inr Some st' show ?thesis
          by (subst main_loop.simps) simp
      qed
    qed
  qed
qed

lemma remove1_split:
  "x \<in> set xs \<Longrightarrow> \<exists>ys zs. xs = ys @ x # zs \<and> x \<notin> set ys \<and> remove1 x xs = ys @ zs"
proof -
  assume "x \<in> set xs"
  then obtain ys zs where s: "xs = ys @ x # zs" "x \<notin> set ys"
    by (meson split_list_first)
  then have "remove1 x xs = ys @ zs" by (simp add: remove1_append)
  with s show ?thesis by blast
qed

text \<open>
  Claim C8.  The main loop exits after evaluating its condition at most once more than
  there are unscheduled tasks.  One iteration either exits the loop (an error, or a
  round without candidate) or removes exactly one task, the committed one, from
  \<open>tasks_to_schedule\<close>.
\<close>

theorem main_loop_terminates:
  "main_loop_fuel (Suc (length (tasks_to_schedule st))) p st = Some (main_loop p st) \<and>
   (tasks_to_schedule st = [] \<longrightarrow> main_loop p st = Inr st) \<and>
   (tasks_to_schedule st \<noteq> [] \<longrightarrow>
      (case select_round p st of
         Inl e \<Rightarrow> main_loop p st = Inl e
       | Inr None \<Rightarrow> main_loop p st = Inr (st\<lparr> printed := printed st @ [warning] \<rparr>)
       | Inr (Some a) \<Rightarrow>
           (case commit st a of
              Inl e \<Rightarrow> main_loop p st = Inl e
            | Inr st' \<Rightarrow>
                main_loop p st = main_loop p st' \<and>
                length (tasks_to_schedule st') + 1 = length (tasks_to_schedule st) \<and>
                (\<exists>ys zs. tasks_to_schedule st = ys @ a_task a # zs \<and> a_task a \<notin> set ys \<and>
                         tasks_to_schedule st' = ys @ zs))))"
proof (intro conjI impI)
  show "main_loop_fuel (Suc (length (tasks_to_schedule st))) p st = Some (main_loop p st)"
    by (rule main_loop_fuel_enough) simp
  show "main_loop p st = Inr st" if "tasks_to_schedule st = []"
    using that by (rule main_loop_done)
  show "case select_round p st of
         Inl e \<Rightarrow> main_loop p st = Inl e
       | Inr None \<Rightarrow> main_loop p st = Inr (st\<lparr> printed := printed st @ [warning] \<rparr>)
       | Inr (Some a) \<Rightarrow>
           (case commit st a of
              Inl e \<Rightarrow> main_loop p st = Inl e
            | Inr st' \<Rightarrow>
                main_loop p st = main_loop p st' \<and>
                length (tasks_to_schedule st') + 1 = length (tasks_to_schedule st) \<and>
                (\<exists>ys zs. tasks_to_schedule st = ys @ a_task a # zs \<and> a_task a \<notin> set ys \<and>
                         tasks_to_schedule st' = ys @ zs))"
    if ne: "tasks_to_schedule st \<noteq> []"
  proof (cases "select_round p st")
    case (Inl e)
    with ne show ?thesis by (simp add: main_loop_error)
  next
    case (Inr bo)
    show ?thesis
    proof (cases bo)
      case None
      with Inr ne show ?thesis by (simp add: main_loop_stall)
    next
      case (Some a)
      show ?thesis
      proof (cases "commit st a")
        case (Inl e)
        with Inr Some ne show ?thesis by (simp add: main_loop_commit_error)
      next
        case st': (Inr st')
        from st' obtain st1 where
          m: "a_task a \<in> set (tasks_to_schedule st)" and
          t: "tasks_to_schedule st' = remove1 (a_task a) (tasks_to_schedule st)"
          by (rule commit_char)
        from remove1_split [OF m] t obtain ys zs where
          s: "tasks_to_schedule st = ys @ a_task a # zs" "a_task a \<notin> set ys"
             "tasks_to_schedule st' = ys @ zs" by auto
        then have l: "length (tasks_to_schedule st') + 1 = length (tasks_to_schedule st)" by simp
        have "main_loop p st = main_loop p st'"
          using ne Inr Some st' by (simp add: main_loop_step)
        with s l Inr Some st' show ?thesis by auto
      qed
    qed
  qed
qed

section \<open>Times: makespan and chronological schedules\<close>

lemma selected_after_available:
  assumes nn: "nonneg_times p" and r: "run p hist st"
    and s: "select_round p st = Inr (Some a)"
  shows "a_start_time a \<le> a_finish_time a"
    and "a_finish_time a = a_start_time a + execution_time (a_task a)"
    and "a_task a \<in> set (get_real_tasks p)"
    and "\<forall>r\<in>set (a_coalition a). rid r < length (robot_available_time st) \<and>
            robot_available_time st ! rid r \<le> a_start_time a"
    and "a_coalition a \<noteq> []"
proof -
  from s have m: "a_task a \<in> set (tasks_to_schedule st)"
    and c: "candidate p st (a_task a) = Inr (Some a)"
    by (rule select_round_Some)+
  from run_shape [OF r] m show rt: "a_task a \<in> set (get_real_tasks p)" by blast
  then have "a_task a \<in> set (tasks p)" by (simp add: get_real_tasks_def)
  with nn have e: "0 \<le> execution_time (a_task a)" by (simp add: nonneg_times_def)
  from candidate_formula [OF c] show f: "a_finish_time a = a_start_time a + execution_time (a_task a)"
    and "a_coalition a \<noteq> []" by simp_all
  with e show "a_start_time a \<le> a_finish_time a" by simp
  show "\<forall>r\<in>set (a_coalition a). rid r < length (robot_available_time st) \<and>
            robot_available_time st ! rid r \<le> a_start_time a"
  proof
    fix r assume rc: "r \<in> set (a_coalition a)"
    note ca = candidate_arrival [OF c rc]
    let ?l = "robot_current_location st ! rid r"
    have "travel_times p ! ?l \<in> set (travel_times p)" using ca(3) by simp
    moreover have "travel_times p ! ?l ! tid (a_task a) \<in> set (travel_times p ! ?l)"
      using ca(4) by simp
    ultimately have "0 \<le> travel_times p ! ?l ! tid (a_task a)"
      using nn unfolding nonneg_times_def by blast
    with ca(5) ca(1) show "rid r < length (robot_available_time st) \<and>
            robot_available_time st ! rid r \<le> a_start_time a" by simp
  qed
qed

lemma commit_available:
  assumes "commit st a = Inr st'"
  shows "length (robot_available_time st') = length (robot_available_time st)"
    and "\<forall>i<length (robot_available_time st). robot_available_time st' ! i =
           (if i \<in> rid ` set (a_coalition a) then a_finish_time a else robot_available_time st ! i)"
proof -
  from assms obtain st1 where
    r: "commit_robots st a (a_coalition a) = Inr st1" and
    e: "robot_available_time st' = robot_available_time st1"
    by (rule commit_char)
  from commit_robots_frame [OF r] e
  show "length (robot_available_time st') = length (robot_available_time st)" by simp
  from commit_robots_available [OF r] e
  show "\<forall>i<length (robot_available_time st). robot_available_time st' ! i =
           (if i \<in> rid ` set (a_coalition a) then a_finish_time a else robot_available_time st ! i)"
    by simp
qed

lemma available_monotone:
  assumes nn: "nonneg_times p" and r: "run p hist st"
    and s: "select_round p st = Inr (Some a)" and c: "commit st a = Inr st'"
    and i: "i < length (robot_available_time st)"
  shows "robot_available_time st ! i \<le> robot_available_time st' ! i"
proof (cases "i \<in> rid ` set (a_coalition a)")
  case True
  then obtain rb where rb: "rb \<in> set (a_coalition a)" "i = rid rb" by blast
  from selected_after_available(1,4) [OF nn r s] rb
  have "robot_available_time st ! i \<le> a_finish_time a" by fastforce
  with commit_available(2) [OF c] i True show ?thesis by simp
next
  case False
  with commit_available(2) [OF c] i show ?thesis by simp
qed

lemma run_makespan_inv:
  assumes nn: "nonneg_times p" and r: "run p hist st"
  shows "(\<forall>x\<in>set (robot_available_time st). 0 \<le> x \<and> (x = 0 \<or> x \<in> finishes hist)) \<and>
         (hist \<noteq> [] \<longrightarrow> Max (finishes hist) \<in> set (robot_available_time st))"
  using r
proof (induction rule: run.induct)
  case run_init
  show ?case by (simp add: init_state_def)
next
  case (run_step hist st a st')
  let ?av = "robot_available_time st" and ?av' = "robot_available_time st'"
  let ?f = "a_finish_time a"
  note sel = selected_after_available [OF nn run_step.hyps(1) run_step.hyps(3)]
  note ca = commit_available [OF run_step.hyps(4)]
  have le: "?av ! i \<le> ?av' ! i" if "i < length ?av" for i
    using available_monotone [OF nn run_step.hyps(1) run_step.hyps(3) run_step.hyps(4) that] .
  have fin: "finishes (hist @ [a]) = insert ?f (finishes hist)"
    by (auto simp: finishes_def)
  from sel(5) obtain r0 where r0: "r0 \<in> set (a_coalition a)" by (cases "a_coalition a") auto
  with sel(4) have r0l: "rid r0 < length ?av" by blast
  with ca r0 have "?av' ! rid r0 = ?f" by auto
  with r0l ca(1) have f_in: "?f \<in> set ?av'" by (metis nth_mem)
  have part1: "0 \<le> x \<and> (x = 0 \<or> x \<in> finishes (hist @ [a]))" if "x \<in> set ?av'" for x
  proof -
    from that obtain i where i: "i < length ?av'" "x = ?av' ! i" by (auto simp: in_set_conv_nth)
    with ca(1) have il: "i < length ?av" by simp
    then have old: "0 \<le> ?av ! i \<and> (?av ! i = 0 \<or> ?av ! i \<in> finishes hist)"
      using run_step.IH by simp
    with le [OF il] i have "0 \<le> x" by simp
    moreover have "x = 0 \<or> x \<in> finishes (hist @ [a])"
    proof (cases "i \<in> rid ` set (a_coalition a)")
      case True
      with ca(2) il i show ?thesis by (simp add: fin)
    next
      case False
      with ca(2) il i old show ?thesis by (auto simp: fin)
    qed
    ultimately show ?thesis by simp
  qed
  have part2: "Max (finishes (hist @ [a])) \<in> set ?av'"
  proof (cases "hist = []")
    case True
    then show ?thesis using f_in by (simp add: finishes_def)
  next
    case False
    then have ne: "finishes hist \<noteq> {}" and fi: "finite (finishes hist)"
      by (simp_all add: finishes_def)
    from run_step.IH False have "Max (finishes hist) \<in> set ?av" by simp
    then obtain j where j: "j < length ?av" "?av ! j = Max (finishes hist)"
      by (auto simp: in_set_conv_nth)
    have mx: "Max (finishes (hist @ [a])) = max ?f (Max (finishes hist))"
      unfolding fin using ne fi by simp
    show ?thesis
    proof (cases "Max (finishes hist) \<le> ?f")
      case True
      with mx f_in show ?thesis by (simp add: max_def)
    next
      case gt: False
      have "j \<notin> rid ` set (a_coalition a)"
      proof
        assume "j \<in> rid ` set (a_coalition a)"
        with ca(2) j(1) have "?av' ! j = ?f" by simp
        with le [OF j(1)] j(2) gt show False by simp
      qed
      with ca(2) j have "?av' ! j = Max (finishes hist)" by simp
      moreover have "j < length ?av'" using j(1) ca(1) by simp
      ultimately have "Max (finishes hist) \<in> set ?av'" by (metis nth_mem)
      with mx gt show ?thesis by (simp add: max_def)
    qed
  qed
  from part1 part2 show ?case by blast
qed

lemma py_max_default_eq:
  "py_max_default xs 0 = (if xs = [] then 0 else Max (set xs))"
  by (cases xs) (simp_all add: fold_max_Max del: set_simps)

lemma run_makespan:
  assumes nn: "nonneg_times p" and r: "run p hist st" and ne: "hist \<noteq> []"
  shows "py_max_default (robot_available_time st) 0 = Max (finishes hist)"
proof -
  let ?av = "robot_available_time st"
  from run_makespan_inv [OF nn r] ne have
    a: "\<forall>x\<in>set ?av. 0 \<le> x \<and> (x = 0 \<or> x \<in> finishes hist)" and
    m: "Max (finishes hist) \<in> set ?av" by simp_all
  from m have nonempty: "?av \<noteq> []" by auto
  have fi: "finite (finishes hist)" by (simp add: finishes_def)
  have "Max (set ?av) = Max (finishes hist)"
  proof (rule antisym)
    show "Max (set ?av) \<le> Max (finishes hist)"
    proof (rule Max.boundedI)
      show "finite (set ?av)" by simp
      show "set ?av \<noteq> {}" using nonempty by simp
      fix x assume x: "x \<in> set ?av"
      from a m have z: "0 \<le> Max (finishes hist)" by blast
      from a x have "x = 0 \<or> x \<in> finishes hist" by blast
      then show "x \<le> Max (finishes hist)"
        using z fi by (auto intro: Max_ge)
    qed
    show "Max (finishes hist) \<le> Max (set ?av)" using m by (intro Max_ge) simp_all
  qed
  with nonempty show ?thesis by (simp add: py_max_default_eq)
qed

lemma no_robots_candidate:
  assumes "robots p = []"
  shows "candidate p st t = Inr None"
proof -
  have "find_minimal_coalition t [] = Inr None \<or> find_minimal_coalition t [] = Inr (Some [])"
  proof (cases "list_ex (\<lambda>req. req = 1) (requirements t)")
    case False
    then show ?thesis by (simp add: find_minimal_coalition_def)
  next
    case True
    then have "ones (requirements t) \<noteq> {}"
      by (auto simp: ones_def list_ex_iff filter_empty_conv in_set_conv_nth)
    then have "cover_loop (ones (requirements t)) [] [] = None"
      by (subst cover_loop.simps) simp
    with True show ?thesis by (simp add: find_minimal_coalition_def)
  qed
  with assms show ?thesis
    by (auto simp: candidate_def Let_def)
qed

lemma no_robots_select:
  assumes "robots p = []"
  shows "select_round p st = Inr None"
proof -
  have "round_loop p st ts (None, None) = Inr (None, None)" for ts
    by (induction ts) (simp_all add: no_robots_candidate [OF assms])
  then show ?thesis by (simp add: select_round_def)
qed

lemma no_robots_result:
  assumes "robots p = []"
  shows "\<exists>res out. greedy_heuristic p = Inr (res, out) \<and> makespan res = 0"
proof -
  have av: "robot_available_time (init_state p) = []"
    using assms by (simp add: init_state_def num_robots_def)
  show ?thesis
  proof (cases "tasks_to_schedule (init_state p) = []")
    case True
    then have "main_loop p (init_state p) = Inr (init_state p)" by (rule main_loop_done)
    with av show ?thesis by (simp add: greedy_heuristic_def)
  next
    case False
    from main_loop_stall [OF False no_robots_select [OF assms]] av
    show ?thesis by (simp add: greedy_heuristic_def)
  qed
qed

subsection \<open>Makespan\<close>

text \<open>
  Claim C5.  Without robots \<open>greedy_heuristic\<close> returns makespan 0.  Every result it
  returns comes from a state of the run at which the loop exits, and every such state
  gives a result: the makespan is the maximum of \<open>robot_available_time\<close> in that state
  (0 for the empty list), and, when execution and travel times are non-negative and at
  least one assignment was committed, it is the largest finish time among the committed
  assignments.
\<close>

theorem makespan_is_latest_finish:
  "(robots p = [] \<longrightarrow> (\<exists>res out. greedy_heuristic p = Inr (res, out) \<and> makespan res = 0)) \<and>
   (\<forall>res out. greedy_heuristic p = Inr (res, out) \<longrightarrow>
      (\<exists>hist st. run p hist st \<and>
         (tasks_to_schedule st = [] \<or> select_round p st = Inr None) \<and>
         res_robot_schedules res = robot_schedules st \<and>
         makespan res = (if robot_available_time st = [] then 0
                         else Max (set (robot_available_time st))) \<and>
         (nonneg_times p \<and> hist \<noteq> [] \<longrightarrow> makespan res = Max (a_finish_time ` set hist)))) \<and>
   (\<forall>hist st. run p hist st \<and> (tasks_to_schedule st = [] \<or> select_round p st = Inr None) \<longrightarrow>
      (\<exists>res out. greedy_heuristic p = Inr (res, out) \<and>
         res_robot_schedules res = robot_schedules st \<and>
         makespan res = (if robot_available_time st = [] then 0
                         else Max (set (robot_available_time st))) \<and>
         (nonneg_times p \<and> hist \<noteq> [] \<longrightarrow> makespan res = Max (a_finish_time ` set hist))))"
proof (intro conjI)
  show "robots p = [] \<longrightarrow> (\<exists>res out. greedy_heuristic p = Inr (res, out) \<and> makespan res = 0)"
    using no_robots_result by blast
next
  have fwd: "\<exists>res out. greedy_heuristic p = Inr (res, out) \<and>
         res_robot_schedules res = robot_schedules st \<and>
         makespan res = (if robot_available_time st = [] then 0
                         else Max (set (robot_available_time st))) \<and>
         (nonneg_times p \<and> hist \<noteq> [] \<longrightarrow> makespan res = Max (a_finish_time ` set hist))"
    if r: "run p hist st" and f: "tasks_to_schedule st = [] \<or> select_round p st = Inr None"
    for hist st
  proof -
    have "\<exists>fin. main_loop p st = Inr fin \<and> robot_available_time fin = robot_available_time st \<and>
            robot_schedules fin = robot_schedules st"
    proof (cases "tasks_to_schedule st = []")
      case True
      then show ?thesis by (simp add: main_loop_done)
    next
      case False
      with f have "select_round p st = Inr None" by simp
      with False show ?thesis by (simp add: main_loop_stall)
    qed
    then obtain fin where fin: "main_loop p (init_state p) = Inr fin"
      "robot_available_time fin = robot_available_time st"
      "robot_schedules fin = robot_schedules st"
      using run_main_loop [OF r] by auto
    let ?res = "\<lparr> makespan = py_max_default (robot_available_time fin) 0,
                  n_tasks = length (get_real_tasks p), n_robots = num_robots p,
                  res_robot_schedules = robot_schedules fin \<rparr>"
    have g: "greedy_heuristic p = Inr (?res, printed fin)"
      using fin(1) by (simp add: greedy_heuristic_def)
    have mk: "makespan ?res = (if robot_available_time st = [] then 0
                         else Max (set (robot_available_time st)))"
      using fin(2) by (simp add: py_max_default_eq)
    have mf: "nonneg_times p \<and> hist \<noteq> [] \<longrightarrow> makespan ?res = Max (a_finish_time ` set hist)"
      using run_makespan [OF _ r] fin(2) by (simp add: finishes_def)
    have rs: "res_robot_schedules ?res = robot_schedules st" using fin(3) by simp
    from g rs mk mf show ?thesis by blast
  qed
  then show "\<forall>hist st. run p hist st \<and> (tasks_to_schedule st = [] \<or> select_round p st = Inr None) \<longrightarrow>
      (\<exists>res out. greedy_heuristic p = Inr (res, out) \<and>
         res_robot_schedules res = robot_schedules st \<and>
         makespan res = (if robot_available_time st = [] then 0
                         else Max (set (robot_available_time st))) \<and>
         (nonneg_times p \<and> hist \<noteq> [] \<longrightarrow> makespan res = Max (a_finish_time ` set hist)))"
    by blast
  show "\<forall>res out. greedy_heuristic p = Inr (res, out) \<longrightarrow>
      (\<exists>hist st. run p hist st \<and>
         (tasks_to_schedule st = [] \<or> select_round p st = Inr None) \<and>
         res_robot_schedules res = robot_schedules st \<and>
         makespan res = (if robot_available_time st = [] then 0
                         else Max (set (robot_available_time st))) \<and>
         (nonneg_times p \<and> hist \<noteq> [] \<longrightarrow> makespan res = Max (a_finish_time ` set hist)))"
  proof (intro allI impI)
    fix res out
    assume g: "greedy_heuristic p = Inr (res, out)"
    then obtain fin where m: "main_loop p (init_state p) = Inr fin"
      by (auto simp: greedy_heuristic_def split: sum.splits)
    from main_loop_run [OF m run_init] obtain hist st where
      r: "run p hist st" and
      f: "tasks_to_schedule st = [] \<or> select_round p st = Inr None"
      by blast
    from fwd [OF r f] g have
       "res_robot_schedules res = robot_schedules st \<and>
         makespan res = (if robot_available_time st = [] then 0
                         else Max (set (robot_available_time st))) \<and>
         (nonneg_times p \<and> hist \<noteq> [] \<longrightarrow> makespan res = Max (a_finish_time ` set hist))"
      by auto
    with r f show "\<exists>hist st. run p hist st \<and>
         (tasks_to_schedule st = [] \<or> select_round p st = Inr None) \<and>
         res_robot_schedules res = robot_schedules st \<and>
         makespan res = (if robot_available_time st = [] then 0
                         else Max (set (robot_available_time st))) \<and>
         (nonneg_times p \<and> hist \<noteq> [] \<longrightarrow> makespan res = Max (a_finish_time ` set hist))"
      by blast
  qed
qed

subsection \<open>Chronological schedules\<close>

lemma chronological_snoc:
  "chronological (es @ [e]) \<longleftrightarrow>
     chronological es \<and> entry_start_time e \<le> entry_end_time e \<and>
     (es \<noteq> [] \<longrightarrow> entry_end_time (last es) \<le> entry_start_time e)"
  by (induction es rule: chronological.induct) auto

lemma distinct_map_move:
  assumes "b \<in> set a" and "distinct (map f (c @ a))"
  shows "distinct (map f ((c @ [b]) @ remove1 b a))"
proof -
  from assms(1) obtain ys zs where s: "a = ys @ b # zs" "b \<notin> set ys"
    "remove1 b a = ys @ zs" using remove1_split by metis
  from assms(2) show ?thesis unfolding s(3) unfolding s(1) by auto
qed

lemma cover_loop_distinct:
  "cover_loop u c a = Some res \<Longrightarrow> distinct (map rid (c @ a)) \<Longrightarrow> distinct (map rid res)"
proof (induction u c a rule: cover_loop.induct)
  case (1 u c a)
  show ?case
  proof (cases "u = {}")
    case True
    with "1.prems" show ?thesis by (simp add: cover_loop.simps)
  next
    case False
    obtain bo cov where br: "best_robot_loop u a (None, {}) = (bo, cov)"
      by (cases "best_robot_loop u a (None, {})")
    show ?thesis
    proof (cases bo)
      case None
      with False br "1.prems"(1) show ?thesis by (simp add: cover_loop.simps)
    next
      case (Some b)
      with br have b: "b \<in> set a"
        using best_robot_loop_mem [of u a None "{}" b cov] by simp
      have step: "cover_loop (u - cov) (c @ [b]) (remove1 b a) = Some res"
        using False br Some "1.prems"(1) by (subst (asm) cover_loop.simps) simp
      have d: "distinct (map rid ((c @ [b]) @ remove1 b a))"
        using b "1.prems"(2) by (rule distinct_map_move)
      from "1.IH" [OF False br [symmetric] Some step d] show ?thesis .
    qed
  qed
qed

lemma first_capable_mem: "first_capable rs rq = Inr (Some r) \<Longrightarrow> r \<in> set rs"
  by (induction rs) (auto split: sum.splits bool.splits if_splits)

lemma find_minimal_coalition_distinct:
  assumes "find_minimal_coalition t rs = Inr (Some c)" and "distinct (map rid rs)"
  shows "distinct (map rid c)"
proof (cases "list_ex (\<lambda>req. req = 1) (requirements t)")
  case False
  with assms(1) show ?thesis by (simp add: find_minimal_coalition_def)
next
  case True
  show ?thesis
  proof (cases "first_capable rs (requirements t)")
    case (Inl e)
    with True assms(1) show ?thesis by (simp add: find_minimal_coalition_def)
  next
    case (Inr ro)
    show ?thesis
    proof (cases ro)
      case (Some r)
      with Inr True assms(1) show ?thesis by (auto simp: find_minimal_coalition_def)
    next
      case None
      with Inr True assms(1) have "cover_loop (ones (requirements t)) [] rs = Some c"
        by (simp add: find_minimal_coalition_def)
      then show ?thesis using assms(2) by (rule cover_loop_distinct [where c = "[]", simplified])
    qed
  qed
qed

lemma filter_distinct_key:
  "distinct (map f xs) \<Longrightarrow>
     map (\<lambda>r. e) (filter (\<lambda>r. f r = i) xs) = (if i \<in> f ` set xs then [e] else [])"
  by (induction xs) (auto simp: image_iff)

lemma run_history_tasks:
  assumes "run p hist st"
  shows "\<forall>a\<in>set hist. a_task a \<in> set (get_real_tasks p) \<and>
            a_finish_time a = a_start_time a + execution_time (a_task a)"
  using assms
proof (induction rule: run.induct)
  case run_init
  show ?case by simp
next
  case (run_step hist st a st')
  from run_step.hyps(3) have m: "a_task a \<in> set (tasks_to_schedule st)"
    and c: "candidate p st (a_task a) = Inr (Some a)"
    by (rule select_round_Some)+
  from run_shape [OF run_step.hyps(1)] m have "a_task a \<in> set (get_real_tasks p)" by blast
  moreover from candidate_formula [OF c]
  have "a_finish_time a = a_start_time a + execution_time (a_task a)" by simp
  ultimately show ?case using run_step.IH by simp
qed

lemma entries_for_matches:
  assumes "run p hist st" and "e \<in> set (entries_for i hist)"
  shows "entry_matches p e"
proof -
  from assms(2) obtain a where a: "a \<in> set hist" "e = entry_of a"
    by (auto simp: entries_for_def)
  with run_history_tasks [OF assms(1)] show ?thesis
    by (auto simp: entry_matches_def entry_of_def)
qed

lemma run_chronological:
  assumes nn: "nonneg_times p" and d: "distinct (map rid (robots p))" and r: "run p hist st"
  shows "i < num_robots p \<Longrightarrow>
         chronological (entries_for i hist) \<and>
         (entries_for i hist \<noteq> [] \<longrightarrow>
            entry_end_time (last (entries_for i hist)) \<le> robot_available_time st ! i)"
  using r
proof (induction rule: run.induct)
  case run_init
  show ?case by (simp add: entries_for_def)
next
  case (run_step hist st a st')
  note sel = selected_after_available [OF nn run_step.hyps(1) run_step.hyps(3)]
  note ca = commit_available [OF run_step.hyps(4)]
  from run_shape [OF run_step.hyps(1)] run_step.prems
  have il: "i < length (robot_available_time st)" by simp
  from run_step.hyps(3) have c: "candidate p st (a_task a) = Inr (Some a)"
    by (rule select_round_Some)
  from candidate_formula [OF c] have
    "find_minimal_coalition (a_task a) (robots p) = Inr (Some (a_coalition a))" by simp
  then have dc: "distinct (map rid (a_coalition a))"
    using d by (rule find_minimal_coalition_distinct)
  have snoc: "entries_for i (hist @ [a]) =
      entries_for i hist @ (if i \<in> rid ` set (a_coalition a) then [entry_of a] else [])"
    unfolding entries_for_snoc filter_distinct_key [OF dc] ..
  note IH = run_step.IH [OF run_step.prems]
  show ?case
  proof (cases "i \<in> rid ` set (a_coalition a)")
    case False
    with snoc ca(2) il IH show ?thesis by simp
  next
    case True
    then obtain rb where rb: "rb \<in> set (a_coalition a)" "i = rid rb" by blast
    with sel(4) have av: "robot_available_time st ! i \<le> a_start_time a" by blast
    have e: "entry_start_time (entry_of a) = a_start_time a"
      "entry_end_time (entry_of a) = a_finish_time a" by (simp_all add: entry_of_def)
    have "chronological (entries_for i hist @ [entry_of a])"
      unfolding chronological_snoc using IH av sel(1) e by auto
    moreover have "robot_available_time st' ! i = a_finish_time a"
      using ca(2) il True by simp
    ultimately show ?thesis using snoc True e by simp
  qed
qed

lemma run_schedule_entries:
  assumes nn: "nonneg_times p" and d: "distinct (map rid (robots p))" and r: "run p hist st"
    and m: "(i, es) \<in> set (robot_schedules st)"
  shows "chronological es \<and> (\<forall>e\<in>set es. entry_matches p e)"
proof -
  from run_shape [OF r] have "distinct (map fst (robot_schedules st))" by simp
  with m have "map_of (robot_schedules st) i = Some es" by simp
  with run_schedules [OF r, of i] have i: "i < num_robots p" and es: "es = entries_for i hist"
    by (auto split: if_splits)
  from run_chronological [OF nn d r i] es entries_for_matches [OF r] show ?thesis by blast
qed

text \<open>
  Claim C10.  With non-negative execution and travel times, on a roster whose robot
  ids are distinct: at every state of the run, and in the returned result, each
  robot's schedule is chronological (an entry ends no earlier than it starts and starts
  no earlier than the previous one ends) and each entry lasts for the execution time of
  its task; and a commit never decreases a robot's available time.
\<close>

theorem schedules_chronological:
  assumes nn: "nonneg_times p" and d: "distinct (map rid (robots p))"
  shows "(\<forall>hist st. run p hist st \<longrightarrow>
           (\<forall>(i, es)\<in>set (robot_schedules st).
               chronological es \<and> (\<forall>e\<in>set es. entry_matches p e)) \<and>
           (\<forall>a st'. select_round p st = Inr (Some a) \<and> commit st a = Inr st' \<longrightarrow>
               length (robot_available_time st') = length (robot_available_time st) \<and>
               (\<forall>i<length (robot_available_time st).
                   robot_available_time st ! i \<le> robot_available_time st' ! i))) \<and>
         (\<forall>res out. greedy_heuristic p = Inr (res, out) \<longrightarrow>
            (\<forall>(i, es)\<in>set (res_robot_schedules res).
                chronological es \<and> (\<forall>e\<in>set es. entry_matches p e)))"
proof (rule conjI)
  show "\<forall>hist st. run p hist st \<longrightarrow>
           (\<forall>(i, es)\<in>set (robot_schedules st).
               chronological es \<and> (\<forall>e\<in>set es. entry_matches p e)) \<and>
           (\<forall>a st'. select_round p st = Inr (Some a) \<and> commit st a = Inr st' \<longrightarrow>
               length (robot_available_time st') = length (robot_available_time st) \<and>
               (\<forall>i<length (robot_available_time st).
                   robot_available_time st ! i \<le> robot_available_time st' ! i))"
  proof (intro allI impI)
    fix hist st assume r: "run p hist st"
    have "\<forall>(i, es)\<in>set (robot_schedules st). chronological es \<and> (\<forall>e\<in>set es. entry_matches p e)"
      using run_schedule_entries [OF nn d r] by blast
    moreover have "length (robot_available_time st') = length (robot_available_time st) \<and>
               (\<forall>i<length (robot_available_time st).
                   robot_available_time st ! i \<le> robot_available_time st' ! i)"
      if h: "select_round p st = Inr (Some a) \<and> commit st a = Inr st'" for a st'
      using h commit_available(1) [of st a st'] available_monotone [OF nn r, of a st'] by blast
    ultimately show "(\<forall>(i, es)\<in>set (robot_schedules st).
               chronological es \<and> (\<forall>e\<in>set es. entry_matches p e)) \<and>
           (\<forall>a st'. select_round p st = Inr (Some a) \<and> commit st a = Inr st' \<longrightarrow>
               length (robot_available_time st') = length (robot_available_time st) \<and>
               (\<forall>i<length (robot_available_time st).
                   robot_available_time st ! i \<le> robot_available_time st' ! i))"
      by blast
  qed
next
  show "\<forall>res out. greedy_heuristic p = Inr (res, out) \<longrightarrow>
            (\<forall>(i, es)\<in>set (res_robot_schedules res).
                chronological es \<and> (\<forall>e\<in>set es. entry_matches p e))"
  proof (intro allI impI)
    fix res out assume g: "greedy_heuristic p = Inr (res, out)"
    then obtain fin where
      m: "main_loop p (init_state p) = Inr fin" and
      res: "res_robot_schedules res = robot_schedules fin"
      by (auto simp: greedy_heuristic_def split: sum.splits)
    from main_loop_run [OF m run_init] obtain hist st where
      r: "run p hist st" and f: "robot_schedules fin = robot_schedules st"
      by auto
    show "\<forall>(i, es)\<in>set (res_robot_schedules res).
            chronological es \<and> (\<forall>e\<in>set es. entry_matches p e)"
      unfolding res f using run_schedule_entries [OF nn d r] by blast
  qed
qed

section \<open>The run on the concrete instances\<close>

lemmas instB_defs = instB_def taskB0_def taskB1_def taskB2_def taskB3_def taskS3_def taskB4_def
  robotA_def robotB_def mk_task_def

lemmas eval_defs = candidate_def dict_get_def find_minimal_coalition_def has_skills_def
  arrival_time_def ones_def cover_loop.simps upt_rec

lemma instB_init: "\<not> is_dummy t \<Longrightarrow> init_state (instB t) = stB0 t"
  by (simp add: init_state_def num_robots_def get_real_tasks_def stB0_def instB_defs upt_rec)

lemma instB_blocked:
  assumes "tid t = 3" and "1 \<notin> scheduled_task_ids st"
  shows "candidate (instB t') st t = Inr None"
  using assms by (simp add: candidate_def dict_get_def instB_def)

lemma instB_select0: "tid t = 3 \<Longrightarrow> select_round (instB t) (stB0 t) = Inr (Some asgB2)"
proof -
  assume t: "tid t = 3"
  have c1: "candidate (instB t) (stB0 t) taskB1 = Inr (Some asgB1)"
    by (simp add: eval_defs stB0_def asgB1_def instB_defs)
  have c2: "candidate (instB t) (stB0 t) taskB2 = Inr (Some asgB2)"
    by (simp add: eval_defs stB0_def asgB2_def instB_defs)
  have c3: "candidate (instB t) (stB0 t) t = Inr None"
    using t by (rule instB_blocked) (simp add: stB0_def)
  have ts: "tasks_to_schedule (stB0 t) = [taskB1, taskB2, t]" by (simp add: stB0_def)
  show ?thesis
    unfolding select_round_def ts by (simp add: c1 c2 c3) (simp add: asgB1_def asgB2_def)
qed

lemma instB_commit0: "tid t = 3 \<Longrightarrow> commit (stB0 t) asgB2 = Inr (stB1 t)"
  by (auto simp: commit_def stB0_def stB1_def asgB2_def entB2_def instB_defs)

lemma instB_select1: "tid t = 3 \<Longrightarrow> select_round (instB t) (stB1 t) = Inr (Some asgB1)"
proof -
  assume t: "tid t = 3"
  have c1: "candidate (instB t) (stB1 t) taskB1 = Inr (Some asgB1)"
    by (simp add: eval_defs stB1_def asgB1_def instB_defs)
  have c3: "candidate (instB t) (stB1 t) t = Inr None"
    using t by (rule instB_blocked) (simp add: stB1_def)
  have ts: "tasks_to_schedule (stB1 t) = [taskB1, t]" by (simp add: stB1_def)
  show ?thesis
    unfolding select_round_def ts by (simp add: c1 c3)
qed

lemma instB_commit1: "tid t = 3 \<Longrightarrow> commit (stB1 t) asgB1 = Inr (stB2 t)"
  by (auto simp: commit_def stB1_def stB2_def asgB1_def entB1_def instB_defs)

lemma instB_select2: "select_round (instB taskB3) (stB2 taskB3) = Inr (Some asgB3)"
proof -
  have c3: "candidate (instB taskB3) (stB2 taskB3) taskB3 = Inr (Some asgB3)"
    by (simp add: eval_defs stB2_def asgB3_def instB_defs)
  have ts: "tasks_to_schedule (stB2 taskB3) = [taskB3]" by (simp add: stB2_def)
  show ?thesis
    unfolding select_round_def ts by (simp add: c3)
qed

lemma instB_commit2: "commit (stB2 taskB3) asgB3 = Inr stB3"
  by (simp add: commit_def stB2_def stB3_def asgB3_def entB3_def instB_defs)

lemma instS_select2: "select_round (instB taskS3) (stB2 taskS3) = Inr None"
proof -
  have c3: "candidate (instB taskS3) (stB2 taskS3) taskS3 = Inr None"
    by (simp add: eval_defs stB2_def instB_defs)
  have ts: "tasks_to_schedule (stB2 taskS3) = [taskS3]" by (simp add: stB2_def)
  show ?thesis
    unfolding select_round_def ts by (simp add: c3)
qed

lemma instB_run2:
  assumes "tid t = 3" and "\<not> is_dummy t"
  shows "run (instB t) [asgB2, asgB1] (stB2 t)"
proof -
  have r0: "run (instB t) [] (stB0 t)"
    using run_init [of "instB t"] assms(2) by (simp add: instB_init)
  have n0: "tasks_to_schedule (stB0 t) \<noteq> []" by (simp add: stB0_def)
  have n1: "tasks_to_schedule (stB1 t) \<noteq> []" by (simp add: stB1_def)
  from run_step [OF r0 n0 instB_select0 [OF assms(1)] instB_commit0 [OF assms(1)]]
  have r1: "run (instB t) [asgB2] (stB1 t)" by simp
  from run_step [OF r1 n1 instB_select1 [OF assms(1)] instB_commit1 [OF assms(1)]]
  show ?thesis by simp
qed

lemma instB_run3: "run (instB taskB3) [asgB2, asgB1, asgB3] stB3"
proof -
  have r2: "run (instB taskB3) [asgB2, asgB1] (stB2 taskB3)"
    by (rule instB_run2) (simp_all add: taskB3_def mk_task_def)
  have n2: "tasks_to_schedule (stB2 taskB3) \<noteq> []" by (simp add: stB2_def)
  from run_step [OF r2 n2 instB_select2 instB_commit2] show ?thesis by simp
qed

lemma instB_result: "greedy_heuristic (instB taskB3) = Inr (resB, [])"
proof -
  have "main_loop (instB taskB3) (init_state (instB taskB3)) = main_loop (instB taskB3) stB3"
    using instB_run3 by (rule run_main_loop)
  also have "\<dots> = Inr stB3" by (rule main_loop_done) (simp add: stB3_def)
  finally show ?thesis
    by (simp add: greedy_heuristic_def)
       (simp add: stB3_def resB_def num_robots_def get_real_tasks_def instB_defs)
qed

lemma instB_nonneg: "nonneg_times (instB t) = (0 \<le> execution_time t)"
  by (auto simp: nonneg_times_def instB_defs)

section \<open>A task without requirements\<close>

lemma requirement_free_no_candidate:
  assumes "\<not> list_ex (\<lambda>req. req = 1) (requirements t)"
  shows "candidate p st t = Inr None"
  using assms by (simp add: candidate_def find_minimal_coalition_def Let_def)

lemma init_pZ: "init_state pZ =
     \<lparr> robot_available_time = [0], robot_current_location = [0],
       tasks_to_schedule = [t_free], scheduled_task_ids = {0},
       task_finish_times = [0 \<mapsto> 0], robot_schedules = [(0, [])], printed = [] \<rparr>"
  by (simp add: init_state_def pZ_def num_robots_def get_real_tasks_def depot_def sink_def t_free_def)

lemma cand_pZ: "candidate pZ st t_free = Inr None"
  by (simp add: candidate_def dict_get_def pZ_def t_free_def find_minimal_coalition_def)

text \<open>
  Claim C1 fails on the code.  \<open>find_minimal_coalition\<close> returns the empty coalition
  for a task without requirements, but the scheduler tests the coalition for truth
  (\<open>if coalition:\<close>), and the empty list is false in Python: the task yields no
  candidate in any state (\<open>requirement_free_no_candidate\<close>), is never scheduled, and
  on the instance below the loop stops at once with the warning.
\<close>

theorem requirement_free_task_stalls:
  "find_minimal_coalition t_free (robots pZ) = Inr (Some []) \<and>
   main_loop pZ (init_state pZ) = Inr ((init_state pZ)\<lparr> printed := [warning] \<rparr>) \<and>
   tasks_to_schedule (init_state pZ) = [t_free] \<and>
   greedy_heuristic pZ =
     Inr (\<lparr> makespan = 0, n_tasks = 1, n_robots = 1, res_robot_schedules = [(0, [])] \<rparr>,
          [warning])"
proof -
  have f: "find_minimal_coalition t_free (robots pZ) = Inr (Some [])"
    by (simp add: find_minimal_coalition_def t_free_def)
  have s: "select_round pZ (init_state pZ) = Inr None"
    by (simp add: select_round_def init_pZ cand_pZ)
  have m: "main_loop pZ (init_state pZ) = Inr ((init_state pZ)\<lparr> printed := [warning] \<rparr>)"
    by (subst main_loop.simps) (simp add: s, simp add: init_pZ)
  have g: "greedy_heuristic pZ =
     Inr (\<lparr> makespan = 0, n_tasks = 1, n_robots = 1, res_robot_schedules = [(0, [])] \<rparr>,
          [warning])"
    unfolding greedy_heuristic_def m
    by (simp add: init_pZ) (simp add: pZ_def get_real_tasks_def num_robots_def depot_def sink_def t_free_def)
  from f s m g show ?thesis by (simp add: init_pZ)
qed

section \<open>The theorems at the concrete instance\<close>

lemma taskB3_real: "tid taskB3 = 3" "\<not> is_dummy taskB3" "0 \<le> execution_time taskB3"
  by (simp_all add: taskB3_def mk_task_def)

lemma taskS3_real: "tid taskS3 = 3" "\<not> is_dummy taskS3"
  by (simp_all add: taskS3_def mk_task_def)


theorem commit_respects_precedence_witness:
  "run (instB taskB3) [asgB2, asgB1] (stB2 taskB3) \<and>
   select_round (instB taskB3) (stB2 taskB3) = Inr (Some asgB3) \<and>
   predecessors_of (instB taskB3) (a_task asgB3) = [1, 2] \<and>
   1 \<in> scheduled_task_ids (stB2 taskB3) \<and>
   2 \<in> scheduled_task_ids (stB2 taskB3) \<and>
   task_finish_times (stB2 taskB3) 1 = Some 7 \<and>
   7 \<le> a_start_time asgB3 \<and>
   max_pred_finish (instB taskB3) (stB2 taskB3) (a_task asgB3) \<le> a_start_time asgB3"
proof -
  have r: "run (instB taskB3) [asgB2, asgB1] (stB2 taskB3)"
    using taskB3_real(1,2) by (rule instB_run2)
  have pr: "predecessors_of (instB taskB3) (a_task asgB3) = [1, 2]"
    by (simp add: predecessors_of_def dict_get_def asgB3_def instB_defs)
  note th = commit_respects_precedence [OF r instB_select2]
  from th pr have "1 \<in> scheduled_task_ids (stB2 taskB3)" "2 \<in> scheduled_task_ids (stB2 taskB3)"
    "max_pred_finish (instB taskB3) (stB2 taskB3) (a_task asgB3) \<le> a_start_time asgB3"
    by simp_all
  moreover have "task_finish_times (stB2 taskB3) 1 = Some 7" by (simp add: stB2_def)
  moreover have "7 \<le> a_start_time asgB3" by (simp add: asgB3_def)
  ultimately show ?thesis using r instB_select2 pr by simp
qed

theorem makespan_is_latest_finish_witness:
  "nonneg_times (instB taskB3) \<and>
   run (instB taskB3) [asgB2, asgB1, asgB3] stB3 \<and>
   tasks_to_schedule stB3 = [] \<and>
   greedy_heuristic (instB taskB3) = Inr (resB, []) \<and>
   makespan resB = Max (a_finish_time ` set [asgB2, asgB1, asgB3]) \<and>
   makespan resB = 10"
proof -
  have nn: "nonneg_times (instB taskB3)" by (simp add: instB_nonneg taskB3_real)
  have fin: "tasks_to_schedule stB3 = []" by (simp add: stB3_def)
  from makespan_is_latest_finish [where p = "instB taskB3"] instB_run3 fin
  obtain res out where
    "greedy_heuristic (instB taskB3) = Inr (res, out)"
    "nonneg_times (instB taskB3) \<and> [asgB2, asgB1, asgB3] \<noteq> [] \<longrightarrow>
       makespan res = Max (a_finish_time ` set [asgB2, asgB1, asgB3])"
    by blast
  with instB_result nn have "makespan resB = Max (a_finish_time ` set [asgB2, asgB1, asgB3])"
    by simp
  with nn instB_run3 fin instB_result show ?thesis by (simp add: resB_def)
qed

theorem stall_returns_partial_schedule_witness:
  "run (instB taskS3) [asgB2, asgB1] (stB2 taskS3) \<and>
   tasks_to_schedule (stB2 taskS3) = [taskS3] \<and>
   select_round (instB taskS3) (stB2 taskS3) = Inr None \<and>
   main_loop (instB taskS3) (init_state (instB taskS3)) =
     Inr ((stB2 taskS3)\<lparr> printed := [warning] \<rparr>) \<and>
   greedy_heuristic (instB taskS3) = Inr (resS, [warning]) \<and>
   map_of (res_robot_schedules resS) 0 = Some (entries_for 0 [asgB2, asgB1])"
proof -
  have r: "run (instB taskS3) [asgB2, asgB1] (stB2 taskS3)"
    using taskS3_real by (rule instB_run2)
  have ts: "tasks_to_schedule (stB2 taskS3) = [taskS3]" by (simp add: stB2_def)
  then have ne: "tasks_to_schedule (stB2 taskS3) \<noteq> []" by simp
  note th = stall_returns_partial_schedule [OF r ne instS_select2]
  from th have m: "main_loop (instB taskS3) (init_state (instB taskS3)) =
     Inr ((stB2 taskS3)\<lparr> printed := [warning] \<rparr>)" by simp
  from th have "greedy_heuristic (instB taskS3) =
           Inr (\<lparr> makespan = py_max_default (robot_available_time (stB2 taskS3)) 0,
                   n_tasks = length (get_real_tasks (instB taskS3)),
                   n_robots = num_robots (instB taskS3),
                   res_robot_schedules = robot_schedules (stB2 taskS3) \<rparr>, [warning])"
    by simp
  then have g: "greedy_heuristic (instB taskS3) = Inr (resS, [warning])"
    by (simp add: stB2_def resS_def num_robots_def get_real_tasks_def instB_defs)
  have n: "(0::nat) < num_robots (instB taskS3)" by (simp add: num_robots_def instB_def)
  from th n have "map_of (robot_schedules (stB2 taskS3)) 0 = Some (entries_for 0 [asgB2, asgB1])"
    by blast
  then have e: "map_of (res_robot_schedules resS) 0 = Some (entries_for 0 [asgB2, asgB1])"
    by (simp add: resS_def stB2_def)
  from r ts instS_select2 m g e show ?thesis by simp
qed

theorem main_loop_terminates_witness:
  "main_loop_fuel (Suc (length (tasks_to_schedule (stB0 taskB3)))) (instB taskB3) (stB0 taskB3)
      = Some (Inr stB3) \<and>
   select_round (instB taskB3) (stB0 taskB3) = Inr (Some asgB2) \<and>
   commit (stB0 taskB3) asgB2 = Inr (stB1 taskB3) \<and>
   main_loop (instB taskB3) (stB0 taskB3) = main_loop (instB taskB3) (stB1 taskB3) \<and>
   length (tasks_to_schedule (stB1 taskB3)) + 1 = length (tasks_to_schedule (stB0 taskB3))"
proof -
  note sel = instB_select0 [OF taskB3_real(1)]
  note com = instB_commit0 [OF taskB3_real(1)]
  note th = main_loop_terminates [where p = "instB taskB3" and st = "stB0 taskB3"]
  have ne: "tasks_to_schedule (stB0 taskB3) \<noteq> []" by (simp add: stB0_def)
  have "main_loop (instB taskB3) (init_state (instB taskB3)) = main_loop (instB taskB3) stB3"
    using instB_run3 by (rule run_main_loop)
  also have "\<dots> = Inr stB3" by (rule main_loop_done) (simp add: stB3_def)
  finally have ml: "main_loop (instB taskB3) (stB0 taskB3) = Inr stB3"
    by (simp add: instB_init taskB3_real)
  from th ml have f: "main_loop_fuel (Suc (length (tasks_to_schedule (stB0 taskB3))))
      (instB taskB3) (stB0 taskB3) = Some (Inr stB3)" by simp
  from th ne sel com have
    "main_loop (instB taskB3) (stB0 taskB3) = main_loop (instB taskB3) (stB1 taskB3)"
    "length (tasks_to_schedule (stB1 taskB3)) + 1 = length (tasks_to_schedule (stB0 taskB3))"
    by simp_all
  with f sel com show ?thesis by simp
qed

theorem schedules_chronological_witness:
  "nonneg_times (instB taskB3) \<and>
   distinct (map rid (robots (instB taskB3))) \<and>
   greedy_heuristic (instB taskB3) = Inr (resB, []) \<and>
   res_robot_schedules resB = [(0, [entB1, entB3]), (1, [entB2, entB3])] \<and>
   chronological [entB1, entB3] \<and>
   chronological [entB2, entB3] \<and>
   entry_matches (instB taskB3) entB3 \<and>
   robot_available_time (stB0 taskB3) ! 1 \<le> robot_available_time (stB1 taskB3) ! 1"
proof -
  have nn: "nonneg_times (instB taskB3)" by (simp add: instB_nonneg taskB3_real)
  have d: "distinct (map rid (robots (instB taskB3)))" by (simp add: instB_defs)
  have rs: "res_robot_schedules resB = [(0, [entB1, entB3]), (1, [entB2, entB3])]"
    by (simp add: resB_def)
  note th = schedules_chronological [OF nn d]
  from th instB_result have
    "\<forall>(i, es)\<in>set (res_robot_schedules resB).
        chronological es \<and> (\<forall>e\<in>set es. entry_matches (instB taskB3) e)"
    by blast
  then have c: "chronological [entB1, entB3]" "chronological [entB2, entB3]"
    "entry_matches (instB taskB3) entB3"
    unfolding rs by simp_all
  have r0: "run (instB taskB3) [] (stB0 taskB3)"
    using run_init [of "instB taskB3"] by (simp add: instB_init taskB3_real)
  have l: "1 < length (robot_available_time (stB0 taskB3))" by (simp add: stB0_def)
  from th r0 instB_select0 [OF taskB3_real(1)] instB_commit0 [OF taskB3_real(1)] l
  have "robot_available_time (stB0 taskB3) ! 1 \<le> robot_available_time (stB1 taskB3) ! 1"
    by blast
  with nn d instB_result rs c show ?thesis by simp
qed

section \<open>The call leaves the instance untouched\<close>

lemma extends_iff:
  "extends h h' \<longleftrightarrow> length h \<le> length h' \<and> (\<forall>a<length h. h' ! a = h ! a)"
proof
  assume "extends h h'"
  then show "length h \<le> length h' \<and> (\<forall>a<length h. h' ! a = h ! a)"
    by (auto simp: extends_def nth_append)
next
  assume a: "length h \<le> length h' \<and> (\<forall>a<length h. h' ! a = h ! a)"
  then have "take (length h) h' = h"
    by (intro nth_equalityI) auto
  then have "h' = h @ drop (length h) h'"
    by (metis append_take_drop_id)
  then show "extends h h'" unfolding extends_def by blast
qed

lemma load_cells:
  assumes "load h pr = Inr p"
  shows "get_tasks h (tasks_at pr) = Inr (tasks p)"
    and "get_robots h (robots_at pr) = Inr (robots p)"
    and "get_matrix h (travel_times_at pr) = Inr (travel_times p)"
    and "get_prec h (precedence_at pr) = Inr (precedence_constraints p)"
    and "\<forall>a\<in>problem_cells pr. a < length h"
  using assms
  by (auto simp: load_def problem_cells_def get_tasks_def get_robots_def get_matrix_def get_prec_def
           split: sum.splits if_splits)

lemma load_agree:
  assumes "load h pr = Inr p" and "length h \<le> length h'"
    and "\<forall>a\<in>problem_cells pr. h' ! a = h ! a"
  shows "load h' pr = Inr p"
proof -
  from load_cells(5) [OF assms(1)] assms(2) have "\<forall>a\<in>problem_cells pr. a < length h \<and> a < length h'"
    by auto
  with assms(3) have
    "get_tasks h' (tasks_at pr) = get_tasks h (tasks_at pr)"
    "get_robots h' (robots_at pr) = get_robots h (robots_at pr)"
    "get_matrix h' (travel_times_at pr) = get_matrix h (travel_times_at pr)"
    "get_prec h' (precedence_at pr) = get_prec h (precedence_at pr)"
    by (simp_all add: problem_cells_def get_tasks_def get_robots_def get_matrix_def get_prec_def)
  with assms(1) show ?thesis by (auto simp: load_def split: sum.splits)
qed

lemma load_extends:
  assumes "load h pr = Inr p" and "extends h h'"
  shows "load h' pr = Inr p"
  using assms load_cells(5) [OF assms(1)]
  by (intro load_agree [of h pr p h']) (auto simp: extends_iff)

lemma cover_loop_ref_value:
  "get_robots h av = Inr A \<Longrightarrow> snd (cover_loop_ref h u c av) = Inr (cover_loop u c A)"
proof (induction u c A arbitrary: h rule: cover_loop.induct)
  case (1 u c A)
  from "1.prems" have l: "av < length h" by (auto simp: get_robots_def split: if_splits)
  show ?case
  proof (cases "u = {}")
    case True
    then show ?thesis by (simp add: cover_loop_ref.simps cover_loop.simps)
  next
    case False
    obtain bo cov where br: "best_robot_loop u A (None, {}) = (bo, cov)"
      by (cases "best_robot_loop u A (None, {})")
    show ?thesis
    proof (cases bo)
      case None
      with False br "1.prems" show ?thesis
        by (simp add: cover_loop_ref.simps cover_loop.simps)
    next
      case (Some b)
      have g: "get_robots (h[av := RobotList (remove1 b A)]) av = Inr (remove1 b A)"
        using l by (simp add: get_robots_def)
      from "1.IH" [OF False br [symmetric] Some g] False br Some "1.prems" show ?thesis
        by (subst cover_loop_ref.simps, subst cover_loop.simps) simp
    qed
  qed
qed

lemma find_minimal_coalition_ref_value:
  assumes "get_robots h ra = Inr R"
  shows "snd (find_minimal_coalition_ref h t ra) = find_minimal_coalition t R"
proof -
  have "get_robots (h @ [RobotList R]) (length h) = Inr R"
    by (simp add: get_robots_def)
  from cover_loop_ref_value [OF this] assms show ?thesis
    by (auto simp: find_minimal_coalition_ref_def find_minimal_coalition_def Let_def alloc_def
             split: sum.splits option.splits)
qed

lemma candidate_ref_value:
  assumes "load h pr = Inr p"
  shows "snd (candidate_ref h pr st t) = candidate p st t"
proof -
  obtain h1 r1 where f: "find_minimal_coalition_ref h t (robots_at pr) = (h1, r1)"
    by (cases "find_minimal_coalition_ref h t (robots_at pr)")
  from find_minimal_coalition_ref_value [OF load_cells(2) [OF assms], of t] f
  have r1: "r1 = find_minimal_coalition t (robots p)" by simp
  from find_minimal_coalition_ref_extends [OF f] have "extends h h1" .
  with assms have l1: "load h1 pr = Inr p" by (rule load_extends)
  show ?thesis
    unfolding candidate_ref_def candidate_def using assms f r1 l1
    by (auto simp: Let_def split: sum.splits option.splits list.splits)
qed

lemma round_loop_ref_value:
  "load h pr = Inr p \<Longrightarrow> snd (round_loop_ref h pr st ts acc) = round_loop p st ts acc"
proof (induction ts arbitrary: h acc)
  case Nil
  then show ?case by simp
next
  case (Cons t ts)
  obtain b0 e0 where acc: "acc = (b0, e0)" by (cases acc)
  obtain h1 r1 where c: "candidate_ref h pr st t = (h1, r1)"
    by (cases "candidate_ref h pr st t")
  from candidate_ref_value [OF Cons.prems, of st t] c have r1: "r1 = candidate p st t" by simp
  from candidate_ref_extends [OF c] Cons.prems have "load h1 pr = Inr p"
    by (rule load_extends [rotated])
  note IH = Cons.IH [OF this]
  show ?case
    unfolding acc using c r1 IH by (auto split: sum.splits option.splits)
qed

lemma arrival_time_pending [simp]:
  "arrival_time p (st\<lparr> tasks_to_schedule := T \<rparr>) t r = arrival_time p st t r"
  by (simp add: arrival_time_def Let_def)

lemma arrival_times_pending [simp]:
  "arrival_times p (st\<lparr> tasks_to_schedule := T \<rparr>) t c = arrival_times p st t c"
  by (induction c) (simp_all cong: sum.case_cong)

lemma candidate_pending [simp]:
  "candidate p (st\<lparr> tasks_to_schedule := T \<rparr>) t = candidate p st t"
  by (simp add: candidate_def Let_def cong: sum.case_cong option.case_cong list.case_cong)

lemma round_loop_pending [simp]:
  "round_loop p (st\<lparr> tasks_to_schedule := T \<rparr>) ts acc = round_loop p st ts acc"
proof (induction ts arbitrary: acc)
  case Nil
  then show ?case by simp
next
  case (Cons t ts)
  obtain b0 e0 where acc: "acc = (b0, e0)" by (cases acc)
  show ?case unfolding acc
    by (simp add: Cons.IH cong: sum.case_cong option.case_cong if_cong)
qed

lemma select_round_ref_value:
  assumes "load h pr = Inr p" and "get_tasks h tr = Inr T"
  shows "snd (select_round_ref h pr tr st) = select_round p (st\<lparr> tasks_to_schedule := T \<rparr>)"
proof -
  obtain h1 r1 where rl: "round_loop_ref h pr st T (None, None) = (h1, r1)"
    by (cases "round_loop_ref h pr st T (None, None)")
  from round_loop_ref_value [OF assms(1), of st T "(None, None)"] rl
  have "r1 = round_loop p st T (None, None)" by simp
  with rl assms(2) show ?thesis
    by (auto simp: select_round_ref_def select_round_def split: sum.splits)
qed

lemma commit_robots_pending:
  "commit_robots (st\<lparr> tasks_to_schedule := T \<rparr>) a rs =
     (case commit_robots st a rs of
        Inl e \<Rightarrow> Inl e
      | Inr s \<Rightarrow> Inr (s\<lparr> tasks_to_schedule := T \<rparr>))"
proof (induction rs arbitrary: st)
  case Nil
  show ?case by simp
next
  case (Cons r rs)
  show ?case
  proof (cases "rid r < length (robot_available_time st)
                 \<and> rid r < length (robot_current_location st)")
    case False
    then show ?thesis by auto
  next
    case True
    show ?thesis
    proof (cases "map_of (robot_schedules st) (rid r)")
      case None
      with True show ?thesis by simp
    next
      case (Some es)
      let ?st1 = "st\<lparr> robot_available_time :=
                       (robot_available_time st)[rid r := a_finish_time a],
                     robot_current_location :=
                       (robot_current_location st)[rid r := tid (a_task a)],
                     robot_schedules :=
                       AList.update (rid r)
                         (es @ [\<lparr> entry_task = tid (a_task a),
                                  entry_start_time = a_start_time a,
                                  entry_end_time = a_finish_time a \<rparr>])
                         (robot_schedules st) \<rparr>"
      let ?st2 = "(st\<lparr> tasks_to_schedule := T \<rparr>)\<lparr> robot_available_time :=
                       (robot_available_time st)[rid r := a_finish_time a],
                     robot_current_location :=
                       (robot_current_location st)[rid r := tid (a_task a)],
                     robot_schedules :=
                       AList.update (rid r)
                         (es @ [\<lparr> entry_task = tid (a_task a),
                                  entry_start_time = a_start_time a,
                                  entry_end_time = a_finish_time a \<rparr>])
                         (robot_schedules st) \<rparr>"
      have eq: "?st2 = ?st1\<lparr> tasks_to_schedule := T \<rparr>"
        by (cases st) simp
      have "commit_robots (st\<lparr> tasks_to_schedule := T \<rparr>) a (r # rs)
              = commit_robots ?st2 a rs"
        using True Some by simp
      also have "\<dots> = commit_robots (?st1\<lparr> tasks_to_schedule := T \<rparr>) a rs"
        by (simp only: eq)
      also have "\<dots> = (case commit_robots ?st1 a rs of
                          Inl e \<Rightarrow> Inl e
                        | Inr s \<Rightarrow> Inr (s\<lparr> tasks_to_schedule := T \<rparr>))"
        by (rule Cons.IH)
      also have "commit_robots ?st1 a rs = commit_robots st a (r # rs)"
        using True Some by simp
      finally show ?thesis .
    qed
  qed
qed

lemma commit_ref_value:
  assumes "get_tasks h tr = Inr T" and "commit_ref h tr st a = (h', r)"
  shows "case r of
           Inl e \<Rightarrow> h' = h \<and> commit (st\<lparr> tasks_to_schedule := T \<rparr>) a = Inl e
         | Inr st' \<Rightarrow> (\<exists>T'. h' = h[tr := TaskList T'] \<and>
                         commit (st\<lparr> tasks_to_schedule := T \<rparr>) a
                           = Inr (st'\<lparr> tasks_to_schedule := T' \<rparr>))"
proof (cases "commit_robots st a (a_coalition a)")
  case (Inl e)
  with assms have "h' = h" "r = Inl e" by (simp_all add: commit_ref_def)
  moreover have "commit (st\<lparr> tasks_to_schedule := T \<rparr>) a = Inl e"
    by (simp add: commit_def commit_robots_pending Inl)
  ultimately show ?thesis by simp
next
  case (Inr s)
  show ?thesis
  proof (cases "a_task a \<in> set T")
    case False
    with Inr assms have "h' = h" "r = Inl ValueError" by (simp_all add: commit_ref_def)
    moreover have "commit (st\<lparr> tasks_to_schedule := T \<rparr>) a = Inl ValueError"
      using False by (simp add: commit_def commit_robots_pending Inr)
    ultimately show ?thesis by simp
  next
    case True
    with Inr assms have
      h': "h' = h[tr := TaskList (remove1 (a_task a) T)]" and
      r: "r = Inr (s\<lparr> scheduled_task_ids := insert (tid (a_task a)) (scheduled_task_ids s),
                      task_finish_times :=
                        (task_finish_times s)(tid (a_task a) \<mapsto> a_finish_time a) \<rparr>)"
      by (auto simp: commit_ref_def)
    have "commit (st\<lparr> tasks_to_schedule := T \<rparr>) a =
            Inr (s\<lparr> scheduled_task_ids := insert (tid (a_task a)) (scheduled_task_ids s),
                     task_finish_times :=
                        (task_finish_times s)(tid (a_task a) \<mapsto> a_finish_time a),
                     tasks_to_schedule := remove1 (a_task a) T \<rparr>)"
      using Inr True by (simp add: commit_def commit_robots_pending)
    with h' r show ?thesis by auto
  qed
qed

lemma main_loop_ref_sim:
  assumes "load h pr = Inr p" and "get_tasks h tr = Inr T" and "tr \<notin> problem_cells pr"
    and "main_loop_ref h pr tr st = (h', r)"
  shows "length h \<le> length h' \<and> (\<forall>a<length h. a \<noteq> tr \<longrightarrow> h' ! a = h ! a) \<and>
         (case r of
            Inl e \<Rightarrow> main_loop p (st\<lparr> tasks_to_schedule := T \<rparr>) = Inl e
          | Inr st' \<Rightarrow> (\<exists>T'. main_loop p (st\<lparr> tasks_to_schedule := T \<rparr>)
                                 = Inr (st'\<lparr> tasks_to_schedule := T' \<rparr>)))"
  using assms
proof (induction h pr tr st arbitrary: T rule: main_loop_ref.induct)
  case (1 h pr tr st)
  let ?st = "st\<lparr> tasks_to_schedule := T \<rparr>"
  have ts: "tasks_to_schedule ?st = T" by simp
  from "1.prems"(2) have l: "tr < length h" by (auto simp: get_tasks_def split: if_splits)
  show ?case
  proof (cases "T = []")
    case True
    with "1.prems" have "h' = h" "r = Inr st"
      by (simp_all add: main_loop_ref.simps)
    moreover have "main_loop p ?st = Inr ?st"
      using True by (simp add: main_loop_done)
    ultimately show ?thesis by auto
  next
    case False
    obtain h1 r1 where s: "select_round_ref h pr tr st = (h1, r1)"
      by (cases "select_round_ref h pr tr st")
    from select_round_ref_value [OF "1.prems"(1,2), of st] s
    have r1: "r1 = select_round p ?st" by simp
    from select_round_ref_extends [OF s] have e1: "extends h h1" .
    then have f1: "length h \<le> length h1" "\<forall>a<length h. h1 ! a = h ! a"
      by (simp_all add: extends_iff)
    from "1.prems"(1) e1 have l1: "load h1 pr = Inr p" by (rule load_extends)
    from e1 l "1.prems"(2) have g1: "get_tasks h1 tr = Inr T" by (simp add: extends_get_tasks)
    have ne: "tasks_to_schedule ?st \<noteq> []" using False by simp
    show ?thesis
    proof (cases r1)
      case (Inl e)
      with "1.prems"(2,4) False s have "h' = h1" "r = Inl e"
        by (simp_all add: main_loop_ref.simps)
      moreover have "main_loop p ?st = Inl e"
        using ne r1 Inl by (simp add: main_loop_error)
      ultimately show ?thesis using f1 by simp
    next
      case (Inr bo)
      show ?thesis
      proof (cases bo)
        case None
        with Inr "1.prems"(2,4) False s have
          hr: "h' = h1" "r = Inr (st\<lparr> printed := printed st @ [warning] \<rparr>)"
          by (simp_all add: main_loop_ref.simps)
        have m: "main_loop p ?st = Inr (?st\<lparr> printed := printed ?st @ [warning] \<rparr>)"
          using ne r1 Inr None by (simp add: main_loop_stall)
        have eq: "?st\<lparr> printed := printed ?st @ [warning] \<rparr>
                        = (st\<lparr> printed := printed st @ [warning] \<rparr>)\<lparr> tasks_to_schedule := T \<rparr>"
          by (cases st) simp
        from m have "main_loop p ?st
            = Inr ((st\<lparr> printed := printed st @ [warning] \<rparr>)\<lparr> tasks_to_schedule := T \<rparr>)"
          by (simp only: eq)
        then have ex: "\<exists>T'. main_loop p ?st
            = Inr ((st\<lparr> printed := printed st @ [warning] \<rparr>)\<lparr> tasks_to_schedule := T' \<rparr>)"
          by (rule exI)
        show ?thesis unfolding hr using f1 ex by simp
      next
        case (Some a)
        obtain h2 r2 where c: "commit_ref h1 tr st a = (h2, r2)"
          by (cases "commit_ref h1 tr st a")
        note cv = commit_ref_value [OF g1 c]
        from r1 Inr Some have sel: "select_round p ?st = Inr (Some a)" by simp
        show ?thesis
        proof (cases r2)
          case e: (Inl e)
          with Inr Some "1.prems"(2,4) False s c have "h' = h2" "r = Inl e"
            by (simp_all add: main_loop_ref.simps)
          moreover from cv e have "h2 = h1" "commit ?st a = Inl e" by simp_all
          moreover have "main_loop p ?st = Inl e"
            using ne sel \<open>commit ?st a = Inl e\<close> by (rule main_loop_commit_error)
          ultimately show ?thesis using f1 by simp
        next
          case st': (Inr st')
          from cv st' obtain T' where
            h2: "h2 = h1[tr := TaskList T']" and
            cm: "commit ?st a = Inr (st'\<lparr> tasks_to_schedule := T' \<rparr>)" by auto
          have rec: "main_loop_ref h2 pr tr st' = (h', r)"
            using Inr Some "1.prems"(2,4) False s c st' by (simp add: main_loop_ref.simps)
          have l1': "tr < length h1" using l f1(1) by simp
          have g2: "get_tasks h2 tr = Inr T'" using h2 l1' by (simp add: get_tasks_def)
          have "load h2 pr = Inr p"
          proof (rule load_agree [OF l1])
            show "length h1 \<le> length h2" using h2 by simp
            show "\<forall>a\<in>problem_cells pr. h2 ! a = h1 ! a"
              using h2 "1.prems"(3) by (metis nth_list_update_neq)
          qed
          have pos: "0 < length T" using False by simp
          from "1.IH" [OF "1.prems"(2) pos s [symmetric] _ _ c [symmetric] _
                         \<open>load h2 pr = Inr p\<close> g2 "1.prems"(3) rec] Inr Some st'
          have ih: "length h2 \<le> length h' \<and> (\<forall>a<length h2. a \<noteq> tr \<longrightarrow> h' ! a = h2 ! a) \<and>
            (case r of
               Inl e \<Rightarrow> main_loop p (st'\<lparr> tasks_to_schedule := T' \<rparr>) = Inl e
             | Inr s \<Rightarrow> (\<exists>T''. main_loop p (st'\<lparr> tasks_to_schedule := T' \<rparr>)
                                 = Inr (s\<lparr> tasks_to_schedule := T'' \<rparr>)))"
            by simp
          have ml: "main_loop p ?st = main_loop p (st'\<lparr> tasks_to_schedule := T' \<rparr>)"
            using ne sel cm by (rule main_loop_step)
          have len: "length h2 = length h1" using h2 by simp
          have c1: "length h \<le> length h'" using ih len f1(1) by simp
          have c2: "h' ! x = h ! x" if "x < length h" "x \<noteq> tr" for x
          proof -
            from that f1(1) len have "x < length h2" by simp
            with ih that have "h' ! x = h2 ! x" by simp
            also have "\<dots> = h1 ! x" using h2 that by simp
            also have "\<dots> = h ! x" using f1(2) that by simp
            finally show ?thesis .
          qed
          have c3: "case r of
              Inl e \<Rightarrow> main_loop p ?st = Inl e
            | Inr s \<Rightarrow> (\<exists>T''. main_loop p ?st = Inr (s\<lparr> tasks_to_schedule := T'' \<rparr>))"
            unfolding ml using ih by simp
          from c1 c2 c3 show ?thesis by blast
        qed
      qed
    qed
  qed
qed

lemma get_real_tasks_ref_value:
  assumes "load h pr = Inr p"
  shows "get_real_tasks_ref h pr = (h @ [TaskList (get_real_tasks p)], Inr (length h))"
  using load_cells(1) [OF assms]
  by (simp add: get_real_tasks_ref_def alloc_def get_real_tasks_def)

lemma greedy_heuristic_ref_sim:
  assumes ld: "load h pr = Inr p" and g: "greedy_heuristic_ref h pr = (h', r)"
  shows "extends h h' \<and> r = greedy_heuristic p"
proof -
  let ?h1 = "h @ [TaskList (get_real_tasks p)]"
  let ?st0 = "(init_state p)\<lparr> tasks_to_schedule := [] \<rparr>"
  have st0: "?st0\<lparr> tasks_to_schedule := get_real_tasks p \<rparr> = init_state p"
    by (simp add: init_state_def)
  have e1: "extends h ?h1" by (auto simp: extends_def)
  with ld have l1: "load ?h1 pr = Inr p" by (rule load_extends)
  have g1: "get_tasks ?h1 (length h) = Inr (get_real_tasks p)" by (simp add: get_tasks_def)
  have fresh: "length h \<notin> problem_cells pr" using load_cells(5) [OF ld] by auto
  obtain h2 r2 where m: "main_loop_ref ?h1 pr (length h) ?st0 = (h2, r2)"
    by (cases "main_loop_ref ?h1 pr (length h) ?st0")
  from main_loop_ref_sim [OF l1 g1 fresh m] have
    len2: "length ?h1 \<le> length h2" and
    fr2: "\<forall>a<length ?h1. a \<noteq> length h \<longrightarrow> h2 ! a = ?h1 ! a" and
    v2: "case r2 of
           Inl e \<Rightarrow> main_loop p (init_state p) = Inl e
         | Inr st' \<Rightarrow> (\<exists>T'. main_loop p (init_state p) = Inr (st'\<lparr> tasks_to_schedule := T' \<rparr>))"
    unfolding st0 by simp_all
  have e2: "extends h h2"
    unfolding extends_iff
  proof (intro conjI allI impI)
    show "length h \<le> length h2" using len2 by simp
    fix a assume a: "a < length h"
    with fr2 have "h2 ! a = ?h1 ! a" by simp
    with a show "h2 ! a = h ! a" by (simp add: nth_append)
  qed
  show ?thesis
  proof (cases r2)
    case (Inl e)
    with g ld m have "h' = h2" "r = Inl e"
      by (simp_all add: greedy_heuristic_ref_def get_real_tasks_ref_value)
    moreover from v2 Inl have "greedy_heuristic p = Inl e"
      by (simp add: greedy_heuristic_def)
    ultimately show ?thesis using e2 by simp
  next
    case (Inr st)
    from ld e2 have l2: "load h2 pr = Inr p" by (rule load_extends)
    let ?h3 = "h2 @ [TaskList (get_real_tasks p)]"
    have e3: "extends h2 ?h3" by (auto simp: extends_def)
    with l2 have l3: "load ?h3 pr = Inr p" by (rule load_extends)
    have g3: "get_tasks ?h3 (length h2) = Inr (get_real_tasks p)" by (simp add: get_tasks_def)
    from g ld m Inr l3 g3 have h': "h' = ?h3"
      and r: "r = Inr (\<lparr> makespan = py_max_default (robot_available_time st) 0,
                         n_tasks = length (get_real_tasks p),
                         n_robots = num_robots p,
                         res_robot_schedules = robot_schedules st \<rparr>, printed st)"
      by (simp_all add: greedy_heuristic_ref_def get_real_tasks_ref_value [OF ld]
                        get_real_tasks_ref_value [OF l2])
    from v2 Inr obtain T' where
      "main_loop p (init_state p) = Inr (st\<lparr> tasks_to_schedule := T' \<rparr>)" by auto
    then have "greedy_heuristic p =
               Inr (\<lparr> makespan = py_max_default (robot_available_time st) 0,
                         n_tasks = length (get_real_tasks p),
                         n_robots = num_robots p,
                         res_robot_schedules = robot_schedules st \<rparr>, printed st)"
      by (simp add: greedy_heuristic_def)
    with r have "r = greedy_heuristic p" by simp
    moreover have "extends h h'" unfolding h' using e2 e3 by (rule extends_trans)
    ultimately show ?thesis by simp
  qed
qed

text \<open>
  Claim C9.  When \<open>greedy_heuristic\<close> is called on a problem object that denotes the
  instance \<open>p\<close>, the store after the call extends the store before it: every object
  that existed, and so the tasks, robots, travel times and precedence constraints of
  the instance, is unchanged, and the object still denotes \<open>p\<close>.  The call returns what
  the value-level \<open>greedy_heuristic p\<close> returns, and a second call on the resulting
  store returns the same result (makespan, counts, schedules and printed lines) and
  again leaves the instance as it was.
\<close>

theorem instance_unmodified_and_deterministic:
  assumes "load h pr = Inr p" and "greedy_heuristic_ref h pr = (h', r)"
  shows "extends h h' \<and> load h' pr = Inr p \<and> r = greedy_heuristic p \<and>
         (\<forall>h'' r'. greedy_heuristic_ref h' pr = (h'', r') \<longrightarrow> r' = r \<and> load h'' pr = Inr p)"
proof -
  from greedy_heuristic_ref_sim [OF assms] have e: "extends h h'" and r: "r = greedy_heuristic p"
    by simp_all
  from assms(1) e have l: "load h' pr = Inr p" by (rule load_extends)
  have "r' = r \<and> load h'' pr = Inr p" if "greedy_heuristic_ref h' pr = (h'', r')" for h'' r'
    using greedy_heuristic_ref_sim [OF l that] r load_extends [OF l] by simp
  with e l r show ?thesis by blast
qed

theorem instance_unmodified_and_deterministic_witness:
  "load storeB refB = Inr (instB taskB3) \<and>
   extends storeB (fst (greedy_heuristic_ref storeB refB)) \<and>
   load (fst (greedy_heuristic_ref storeB refB)) refB = Inr (instB taskB3) \<and>
   snd (greedy_heuristic_ref storeB refB) = Inr (resB, []) \<and>
   snd (greedy_heuristic_ref (fst (greedy_heuristic_ref storeB refB)) refB) = Inr (resB, [])"
proof -
  have l: "load storeB refB = Inr (instB taskB3)"
    by (simp add: load_def get_tasks_def get_robots_def get_matrix_def get_prec_def
                  storeB_def refB_def instB_def)
  have p1: "greedy_heuristic_ref storeB refB =
              (fst (greedy_heuristic_ref storeB refB), snd (greedy_heuristic_ref storeB refB))"
    by simp
  have p2: "greedy_heuristic_ref (fst (greedy_heuristic_ref storeB refB)) refB =
              (fst (greedy_heuristic_ref (fst (greedy_heuristic_ref storeB refB)) refB),
               snd (greedy_heuristic_ref (fst (greedy_heuristic_ref storeB refB)) refB))"
    by simp
  note th = instance_unmodified_and_deterministic [OF l p1]
  from th p2 have "snd (greedy_heuristic_ref (fst (greedy_heuristic_ref storeB refB)) refB)
                     = snd (greedy_heuristic_ref storeB refB)"
    by blast
  with th l instB_result show ?thesis by simp
qed


end
